theory Spec2Isabelle
  imports Main "HOL-Library.Word"
begin

section \<open>Row-store modification: data model\<close>

text \<open>
  The structures of \<open>src/btree/row_modify.c\<close> live in an explicit store: every
  pointer is an address (\<open>None\<close> is the C \<open>NULL\<close>), and every kind of object has
  its own table from addresses to values. Return codes are values of \<open>wt_error\<close>;
  a function that returns \<open>0\<close> in C returns \<open>Inr\<close> of the new store here.
\<close>

type_synonym addr = nat

datatype wt_error = WT_RESTART | WT_ROLLBACK | WT_NOTFOUND | ENOMEM

text \<open>
  A value of C type \<open>WT_INSERT **\<close>: the address of a forward pointer, either
  \<open>&head->head[i]\<close> or \<open>&ins->next[i]\<close>.
\<close>

datatype ins_pp = HeadSlot addr nat | NextSlot addr nat

record wt_update =
  txnid :: "64 word"
  upd_next :: "addr option"
  upd_deleted :: bool
  u_size :: "32 word"
  upd_data :: "8 word list"

record wt_insert =
  ins_key :: "8 word list"
  ins_upd :: "addr option"
  ins_next :: "nat \<Rightarrow> addr option"

record wt_insert_head =
  head :: "nat \<Rightarrow> addr option"
  tail :: "nat \<Rightarrow> addr option"

record wt_page =
  entries :: "32 word"
  row_upd :: "addr option"
  row_ins :: "addr option"
  memory_footprint :: "64 word"
  write_gen_wrapped :: bool
  page_modified :: bool

text \<open>
  Calls into the transaction manager and the allocator are recorded in a trace, newest
  event first.
\<close>

datatype event = EvAlloc addr | EvFree addr | EvTxnModify | EvTxnUnmodify

record store =
  page :: wt_page
  upd_arrays :: "addr \<Rightarrow> nat \<Rightarrow> addr option"
  ins_arrays :: "addr \<Rightarrow> nat \<Rightarrow> addr option"
  ins_heads :: "addr \<Rightarrow> wt_insert_head"
  inserts :: "addr \<Rightarrow> wt_insert"
  updates :: "addr \<Rightarrow> wt_update"
  next_free :: addr
  alloc_fails :: "bool list"
  trace :: "event list"

definition read_slot :: "store \<Rightarrow> ins_pp \<Rightarrow> addr option" where
  "read_slot s p =
     (case p of HeadSlot h i \<Rightarrow> head (ins_heads s h) i
      | NextSlot n i \<Rightarrow> ins_next (inserts s n) i)"

definition write_slot :: "ins_pp \<Rightarrow> addr option \<Rightarrow> store \<Rightarrow> store" where
  "write_slot p v s =
     (case p of
        HeadSlot h i \<Rightarrow>
          s\<lparr>ins_heads := (ins_heads s)(h := (ins_heads s h)\<lparr>head := (head (ins_heads s h))(i := v)\<rparr>)\<rparr>
      | NextSlot n i \<Rightarrow>
          s\<lparr>inserts := (inserts s)(n := (inserts s n)\<lparr>ins_next := (ins_next (inserts s n))(i := v)\<rparr>)\<rparr>)"

definition set_tail :: "addr \<Rightarrow> nat \<Rightarrow> addr option \<Rightarrow> store \<Rightarrow> store" where
  "set_tail h i v s =
     s\<lparr>ins_heads := (ins_heads s)(h := (ins_heads s h)\<lparr>tail := (tail (ins_heads s h))(i := v)\<rparr>)\<rparr>"

text \<open>
  Modelled from the spec: \<open>__wt_page_write_gen_wrapped_check\<close> is declared outside the
  sources at hand. The step fails fast with restart if the page's write generation has
  wrapped; whether it has is a field of the page.
\<close>

definition wt_page_write_gen_wrapped_check :: "wt_page \<Rightarrow> wt_error option" where
  "wt_page_write_gen_wrapped_check pg = (if write_gen_wrapped pg then Some WT_RESTART else None)"

text \<open>
  Modelled from the spec: \<open>__wt_page_and_tree_modify_set\<close> is declared outside the
  sources at hand; it marks the page dirty.
\<close>

definition wt_page_and_tree_modify_set :: "store \<Rightarrow> store" where
  "wt_page_and_tree_modify_set s = s\<lparr>page := (page s)\<lparr>page_modified := True\<rparr>\<rparr>"

section \<open>The insert serialization function\<close>

text \<open>
  The first loop of \<open>__wt_insert_serial_func\<close>: confirm the position at every level
  \<open>i < skipdepth\<close>, returning \<open>WT_RESTART\<close> at the first level that fails.
\<close>

function insert_position_check ::
  "store \<Rightarrow> addr \<Rightarrow> (nat \<Rightarrow> ins_pp option) \<Rightarrow> (nat \<Rightarrow> addr option) \<Rightarrow> nat \<Rightarrow> nat \<Rightarrow> wt_error option"
where
  "insert_position_check s ins_head ins_stack next_stack skipdepth i =
     (if i < skipdepth then
        (case ins_stack i of
           None \<Rightarrow> Some WT_RESTART
         | Some p \<Rightarrow>
             if read_slot s p \<noteq> next_stack i then Some WT_RESTART
             else
               (case tail (ins_heads s ins_head) i of
                  None \<Rightarrow> insert_position_check s ins_head ins_stack next_stack skipdepth (Suc i)
                | Some t \<Rightarrow>
                    if next_stack i = None \<and> ins_stack i \<noteq> Some (NextSlot t i)
                    then Some WT_RESTART
                    else insert_position_check s ins_head ins_stack next_stack skipdepth (Suc i)))
      else None)"
  by pat_completeness auto
termination
  by (relation "measure (\<lambda>(s, ins_head, ins_stack, next_stack, skipdepth, i). skipdepth - i)") auto

declare insert_position_check.simps [simp del]

text \<open>
  The second loop: \<open>new_ins->next[i] = *ins_stack[i]\<close>. The first loop has returned
  already where \<open>ins_stack[i]\<close> is \<open>NULL\<close>, so that branch is never run.
\<close>

function insert_set_next ::
  "addr \<Rightarrow> (nat \<Rightarrow> ins_pp option) \<Rightarrow> nat \<Rightarrow> nat \<Rightarrow> store \<Rightarrow> store"
where
  "insert_set_next new_ins ins_stack skipdepth i s =
     (if i < skipdepth then
        insert_set_next new_ins ins_stack skipdepth (Suc i)
          (case ins_stack i of
             None \<Rightarrow> s
           | Some p \<Rightarrow> write_slot (NextSlot new_ins i) (read_slot s p) s)
      else s)"
  by pat_completeness auto
termination
  by (relation "measure (\<lambda>(new_ins, ins_stack, skipdepth, i, s). skipdepth - i)") auto

declare insert_set_next.simps [simp del]

text \<open>
  The third loop: move the tail where the new item is the new tail of the level, then
  make the predecessor reference the new item.
\<close>

definition is_new_tail :: "store \<Rightarrow> addr \<Rightarrow> (nat \<Rightarrow> ins_pp option) \<Rightarrow> nat \<Rightarrow> bool" where
  "is_new_tail s ins_head ins_stack i =
     (case tail (ins_heads s ins_head) i of
        None \<Rightarrow> True
      | Some t \<Rightarrow> ins_stack i = Some (NextSlot t i))"

definition insert_link_level ::
  "addr \<Rightarrow> addr \<Rightarrow> (nat \<Rightarrow> ins_pp option) \<Rightarrow> nat \<Rightarrow> store \<Rightarrow> store"
where
  "insert_link_level ins_head new_ins ins_stack i s =
     (let s1 = (if is_new_tail s ins_head ins_stack i
                then set_tail ins_head i (Some new_ins) s else s)
      in case ins_stack i of
           None \<Rightarrow> s1
         | Some p \<Rightarrow> write_slot p (Some new_ins) s1)"

function insert_link ::
  "addr \<Rightarrow> addr \<Rightarrow> (nat \<Rightarrow> ins_pp option) \<Rightarrow> nat \<Rightarrow> nat \<Rightarrow> store \<Rightarrow> store"
where
  "insert_link ins_head new_ins ins_stack skipdepth i s =
     (if i < skipdepth then
        insert_link ins_head new_ins ins_stack skipdepth (Suc i)
          (insert_link_level ins_head new_ins ins_stack i s)
      else s)"
  by pat_completeness auto
termination
  by (relation "measure (\<lambda>(ins_head, new_ins, ins_stack, skipdepth, i, s). skipdepth - i)") auto

declare insert_link.simps [simp del]

text \<open>
  \<open>__wt_insert_serial_func\<close>. The arguments unpacked from \<open>args\<close> are parameters; the
  page is the store's. \<open>Inr\<close> is the return of \<open>0\<close>, after
  \<open>__wt_insert_new_ins_taken\<close>: the new item belongs to the list.
\<close>

definition wt_insert_serial_func ::
  "addr \<Rightarrow> (nat \<Rightarrow> ins_pp option) \<Rightarrow> (nat \<Rightarrow> addr option) \<Rightarrow> addr \<Rightarrow> nat \<Rightarrow> store
     \<Rightarrow> wt_error + store"
where
  "wt_insert_serial_func ins_head ins_stack next_stack new_ins skipdepth s =
     (case wt_page_write_gen_wrapped_check (page s) of
        Some e \<Rightarrow> Inl e
      | None \<Rightarrow>
          (case insert_position_check s ins_head ins_stack next_stack skipdepth 0 of
             Some e \<Rightarrow> Inl e
           | None \<Rightarrow>
               Inr (wt_page_and_tree_modify_set
                     (insert_link ins_head new_ins ins_stack skipdepth 0
                       (insert_set_next new_ins ins_stack skipdepth 0 s)))))"

text \<open>The two checks of one level, as the first loop makes them.\<close>

definition level_ok ::
  "store \<Rightarrow> addr \<Rightarrow> (nat \<Rightarrow> ins_pp option) \<Rightarrow> (nat \<Rightarrow> addr option) \<Rightarrow> nat \<Rightarrow> bool"
where
  "level_ok s ins_head ins_stack next_stack i =
     (case ins_stack i of
        None \<Rightarrow> False
      | Some p \<Rightarrow>
          read_slot s p = next_stack i \<and>
          (next_stack i = None \<longrightarrow>
             (case tail (ins_heads s ins_head) i of
                None \<Rightarrow> True
              | Some t \<Rightarrow> p = NextSlot t i)))"


section \<open>Version chains: allocation, the obsolete collector, the update serialization function\<close>

text \<open>
  A value of C type \<open>WT_UPDATE **\<close> as \<open>__wt_row_modify\<close> builds it: either
  \<open>&upd_array[slot]\<close>, where \<open>upd_array\<close> is the array \<open>page->u.row.upd\<close> points
  to, or \<open>&ins->upd\<close>.
\<close>

datatype upd_pp = RowUpdSlot addr nat | InsUpdSlot addr

definition read_upd_slot :: "store \<Rightarrow> upd_pp \<Rightarrow> addr option" where
  "read_upd_slot s e =
     (case e of RowUpdSlot arr i \<Rightarrow> upd_arrays s arr i
      | InsUpdSlot n \<Rightarrow> ins_upd (inserts s n))"

definition write_upd_slot :: "upd_pp \<Rightarrow> addr option \<Rightarrow> store \<Rightarrow> store" where
  "write_upd_slot e v s =
     (case e of
        RowUpdSlot arr i \<Rightarrow> s\<lparr>upd_arrays := (upd_arrays s)(arr := (upd_arrays s arr)(i := v))\<rparr>
      | InsUpdSlot n \<Rightarrow> s\<lparr>inserts := (inserts s)(n := (inserts s n)\<lparr>ins_upd := v\<rparr>)\<rparr>)"

definition set_upd_next :: "addr \<Rightarrow> addr option \<Rightarrow> store \<Rightarrow> store" where
  "set_upd_next u v s = s\<lparr>updates := (updates s)(u := (updates s u)\<lparr>upd_next := v\<rparr>)\<rparr>"

text \<open>
  Modelled from the spec: \<open>__wt_free\<close>, \<open>__wt_cache_page_inmem_incr\<close> and
  \<open>__wt_cache_page_inmem_decr\<close> are declared outside the sources at hand. Freeing
  \<open>NULL\<close> does nothing, freeing an address is recorded in the trace; the two cache
  calls add to and subtract from the page's in-memory byte accounting, a \<open>size_t\<close>.
\<close>

definition wt_free :: "addr option \<Rightarrow> store \<Rightarrow> store" where
  "wt_free p s = (case p of None \<Rightarrow> s | Some a \<Rightarrow> s\<lparr>trace := EvFree a # trace s\<rparr>)"

definition wt_cache_page_inmem_incr :: "64 word \<Rightarrow> store \<Rightarrow> store" where
  "wt_cache_page_inmem_incr n s =
     s\<lparr>page := (page s)\<lparr>memory_footprint := memory_footprint (page s) + n\<rparr>\<rparr>"

definition wt_cache_page_inmem_decr :: "64 word \<Rightarrow> store \<Rightarrow> store" where
  "wt_cache_page_inmem_decr n s =
     s\<lparr>page := (page s)\<lparr>memory_footprint := memory_footprint (page s) - n\<rparr>\<rparr>"

text \<open>
  Modelled from the spec: \<open>__wt_calloc\<close> is declared outside the sources at hand. The
  store's \<open>alloc_fails\<close> says which of the coming allocations fail; an allocation that
  succeeds returns the next free address and records it in the trace. The caller writes
  the zeroed object.
\<close>

definition wt_calloc :: "store \<Rightarrow> (wt_error + addr) \<times> store" where
  "wt_calloc s =
     (case alloc_fails s of
        True # fs \<Rightarrow> (Inl ENOMEM, s\<lparr>alloc_fails := fs\<rparr>)
      | False # fs \<Rightarrow>
          (Inr (next_free s),
           s\<lparr>next_free := Suc (next_free s), alloc_fails := fs,
             trace := EvAlloc (next_free s) # trace s\<rparr>)
      | [] \<Rightarrow>
          (Inr (next_free s),
           s\<lparr>next_free := Suc (next_free s), trace := EvAlloc (next_free s) # trace s\<rparr>))"

text \<open>
  \<open>__wt_update_alloc\<close>: \<open>value\<close> is \<open>None\<close> for the C \<open>NULL\<close> (a remove). The
  size is a \<open>size_t\<close>; \<open>sizeof(WT_UPDATE)\<close> is a parameter. Modelled from the spec:
  the macros \<open>WT_UPDATE_DELETED_SET\<close>, \<open>WT_UPDATE_DELETED_ISSET\<close> and
  \<open>WT_STORE_SIZE\<close> are declared outside the sources at hand; a deleted item is a
  tombstone, marked by a flag of the update, and \<open>WT_STORE_SIZE\<close> narrows a
  \<open>size_t\<close> to the 32-bit size field.
\<close>

definition wt_update_alloc ::
  "64 word \<Rightarrow> 8 word list option \<Rightarrow> store \<Rightarrow> (wt_error + addr \<times> 64 word) \<times> store"
where
  "wt_update_alloc sizeof_upd val s =
     (let sz = (case val of None \<Rightarrow> 0 | Some v \<Rightarrow> (of_nat (length v) :: 64 word))
      in case wt_calloc s of
           (Inl e, s1) \<Rightarrow> (Inl e, s1)
         | (Inr u, s1) \<Rightarrow>
             (Inr (u, sizeof_upd + sz),
              s1\<lparr>updates := (updates s1)(u :=
                    (case val of
                       None \<Rightarrow> \<lparr>txnid = 0, upd_next = None, upd_deleted = True,
                                 u_size = 0, upd_data = []\<rparr>
                     | Some v \<Rightarrow> \<lparr>txnid = 0, upd_next = None, upd_deleted = False,
                                   u_size = ucast sz, upd_data = v\<rparr>))\<rparr>))"

text \<open>
  \<open>__wt_update_obsolete_check\<close>. The walk follows \<open>next\<close> pointers and need not end
  on a store with a cycle, so the result is optional. \<open>visible_all\<close> is the transaction
  manager's oracle. The compare-and-swap of \<open>upd->next\<close> from \<open>next\<close> to \<open>NULL\<close>
  fails when another thread has changed \<open>upd->next\<close> since it was read; the only
  writers of a \<open>next\<close> pointer that is set are other collectors, which store \<open>NULL\<close>.
  \<open>raced\<close> says that one of them did so between the read and the compare-and-swap.
\<close>

definition cas_upd_next :: "addr \<Rightarrow> addr option \<Rightarrow> addr option \<Rightarrow> store \<Rightarrow> bool \<times> store" where
  "cas_upd_next u expected new s =
     (if upd_next (updates s u) = expected then (True, set_upd_next u new s) else (False, s))"

text \<open>
  The truncation of the chain after \<open>u\<close>, whose \<open>next\<close> was read as \<open>n\<close>: the
  compare-and-swap, and what the function returns after it.
\<close>

definition obsolete_truncate :: "bool \<Rightarrow> addr \<Rightarrow> addr \<Rightarrow> store \<Rightarrow> addr option \<times> store" where
  "obsolete_truncate raced u n s =
     (case cas_upd_next u (Some n) None (if raced then set_upd_next u None s else s) of
        (swapped, s1) \<Rightarrow> if \<not> swapped then (None, s1) else (Some n, s1))"

partial_function (option) wt_update_obsolete_check ::
  "(64 word \<Rightarrow> bool) \<Rightarrow> bool \<Rightarrow> addr option \<Rightarrow> store \<Rightarrow> (addr option \<times> store) option"
where
  "wt_update_obsolete_check visible_all raced upd s =
     (case upd of
        None \<Rightarrow> Some (None, s)
      | Some u \<Rightarrow>
          if visible_all (txnid (updates s u)) then
            (case upd_next (updates s u) of
               None \<Rightarrow> Some (None, s)
             | Some n \<Rightarrow> Some (obsolete_truncate raced u n s))
          else wt_update_obsolete_check visible_all raced (upd_next (updates s u)) s)"

text \<open>
  \<open>__wt_update_obsolete_free\<close>: the loop adds up the sizes in a \<open>size_t\<close> and frees
  every update of the list; it need not end on a store with a cycle.
\<close>

partial_function (option) obsolete_free_loop ::
  "64 word \<Rightarrow> 64 word \<Rightarrow> addr option \<Rightarrow> store \<Rightarrow> (64 word \<times> store) option"
where
  "obsolete_free_loop sizeof_upd sz upd s =
     (case upd of
        None \<Rightarrow> Some (sz, s)
      | Some u \<Rightarrow>
          obsolete_free_loop sizeof_upd
            (sz + (sizeof_upd +
               (if upd_deleted (updates s u) then 0 else ucast (u_size (updates s u)))))
            (upd_next (updates s u))
            (wt_free (Some u) s))"

definition wt_update_obsolete_free :: "64 word \<Rightarrow> addr option \<Rightarrow> store \<Rightarrow> store option" where
  "wt_update_obsolete_free sizeof_upd upd s =
     (case obsolete_free_loop sizeof_upd 0 upd s of
        None \<Rightarrow> None
      | Some (sz, s1) \<Rightarrow>
          Some (if sz \<noteq> 0 then wt_cache_page_inmem_decr sz s1 else s1))"

text \<open>
  \<open>__wt_update_serial_func\<close>. \<open>update_check\<close> is the transaction manager's
  \<open>__wt_txn_update_check\<close>, a parameter. The result is the return code (\<open>None\<close> is
  \<open>0\<close>), the list stored through \<open>upd_obsolete\<close>, and the store.
\<close>

definition wt_update_serial_func ::
  "(store \<Rightarrow> addr option \<Rightarrow> wt_error option) \<Rightarrow> (64 word \<Rightarrow> bool) \<Rightarrow> bool \<Rightarrow>
   upd_pp \<Rightarrow> addr option \<Rightarrow> addr \<Rightarrow> store \<Rightarrow> (wt_error option \<times> addr option \<times> store) option"
where
  "wt_update_serial_func update_check visible_all raced upd_entry old_upd upd s =
     (case wt_page_write_gen_wrapped_check (page s) of
        Some e \<Rightarrow> Some (Some e, None, s)
      | None \<Rightarrow>
          (case (if old_upd \<noteq> read_upd_slot s upd_entry
                 then update_check s (read_upd_slot s upd_entry) else None) of
             Some e \<Rightarrow> Some (Some e, None, s)
           | None \<Rightarrow>
               (let s1 = set_upd_next upd (read_upd_slot s upd_entry) s;
                    s2 = write_upd_slot upd_entry (Some upd) s1
                in case wt_update_obsolete_check visible_all raced (upd_next (updates s2 upd)) s2 of
                     None \<Rightarrow> None
                   | Some (obsolete, s3) \<Rightarrow>
                       Some (None, obsolete, wt_page_and_tree_modify_set s3))))"

text \<open>
  The updates of a version chain, in order: \<open>upd_chain s p xs\<close> says that following
  \<open>next\<close> from \<open>p\<close> visits exactly \<open>xs\<close> and ends at \<open>NULL\<close>.
\<close>

primrec upd_chain :: "store \<Rightarrow> addr option \<Rightarrow> addr list \<Rightarrow> bool" where
  "upd_chain s p [] = (p = None)"
| "upd_chain s p (a # as) = (p = Some a \<and> upd_chain s (upd_next (updates s a)) as)"

definition upd_bytes :: "64 word \<Rightarrow> store \<Rightarrow> addr \<Rightarrow> 64 word" where
  "upd_bytes sizeof_upd s u =
     sizeof_upd + (if upd_deleted (updates s u) then 0 else ucast (u_size (updates s u)))"

section \<open>The modify entry point\<close>

text \<open>
  The fields of \<open>WT_CURSOR_BTREE\<close> that \<open>__wt_row_modify\<close> reads and writes. The
  flag \<open>WT_CBT_SEARCH_SMALLEST\<close> is the field \<open>cbt_search_smallest\<close>.
\<close>

record wt_cursor_btree =
  cbt_key :: "8 word list"
  cbt_value :: "8 word list"
  cbt_compare :: int
  cbt_ins :: "addr option"
  cbt_slot :: "32 word"
  cbt_search_smallest :: bool
  cbt_ins_stack :: "nat \<Rightarrow> ins_pp option"
  cbt_next_stack :: "nat \<Rightarrow> addr option"
  cbt_ins_head :: "addr option"
  cbt_write_gen :: "32 word"

text \<open>
  What the sources at hand leave open is a parameter of the model: the transaction
  manager's \<open>__wt_txn_update_check\<close>, \<open>__wt_txn_visible_all\<close> and the outcome of
  \<open>__wt_txn_modify\<close> (an error, or the transaction id it stores), the depth
  \<open>__wt_skip_choose_depth\<close> draws, the constant \<open>WT_SKIP_MAXDEPTH\<close>, the sizes of
  the structures, and what other threads do between a test for \<open>NULL\<close> and the
  compare-and-swap that follows it: \<open>w_race_upd\<close>, \<open>w_race_ins\<close> and
  \<open>w_race_head\<close> are the pointer another thread has published in the meantime
  (\<open>None\<close>: no other thread has), \<open>w_race_prune\<close> is the \<open>raced\<close> of the collector.
  \<open>w_serial_frees\<close> is the convention of the serialization wrappers for a node that
  was not taken, see below.
\<close>

record world =
  w_update_check :: "store \<Rightarrow> addr option \<Rightarrow> wt_error option"
  w_visible_all :: "64 word \<Rightarrow> bool"
  w_txn_modify :: "wt_error + 64 word"
  w_skipdepth :: nat
  w_maxdepth :: nat
  w_race_upd :: "addr option"
  w_race_ins :: "addr option"
  w_race_head :: "addr option"
  w_race_prune :: bool
  w_serial_frees :: bool
  sizeof_WT_UPDATE :: "64 word"
  sizeof_WT_INSERT :: "64 word"
  sizeof_WT_INSERT_HEAD :: "64 word"
  sizeof_ptr :: "64 word"

text \<open>
  Modelled from the spec: \<open>__wt_txn_modify\<close> and \<open>__wt_txn_unmodify\<close> are declared
  outside the sources at hand. A successful \<open>__wt_txn_modify\<close> assigns the update's
  transaction id and registers the modification; \<open>__wt_txn_unmodify\<close> removes it again.
  Both are recorded in the trace.
\<close>

definition wt_txn_modify :: "world \<Rightarrow> addr \<Rightarrow> store \<Rightarrow> wt_error option \<times> store" where
  "wt_txn_modify w upd s =
     (case w_txn_modify w of
        Inl e \<Rightarrow> (Some e, s)
      | Inr txn \<Rightarrow>
          (None, s\<lparr>updates := (updates s)(upd := (updates s upd)\<lparr>txnid := txn\<rparr>),
                   trace := EvTxnModify # trace s\<rparr>))"

definition wt_txn_unmodify :: "store \<Rightarrow> store" where
  "wt_txn_unmodify s = s\<lparr>trace := EvTxnUnmodify # trace s\<rparr>"

text \<open>
  \<open>WT_ATOMIC_CAS\<close> on the three pointers that are published once, and the store of a
  racing thread that comes before it.
\<close>

definition cas_row_upd :: "addr option \<Rightarrow> addr option \<Rightarrow> store \<Rightarrow> bool \<times> store" where
  "cas_row_upd expected new s =
     (if row_upd (page s) = expected then (True, s\<lparr>page := (page s)\<lparr>row_upd := new\<rparr>\<rparr>)
      else (False, s))"

definition cas_row_ins :: "addr option \<Rightarrow> addr option \<Rightarrow> store \<Rightarrow> bool \<times> store" where
  "cas_row_ins expected new s =
     (if row_ins (page s) = expected then (True, s\<lparr>page := (page s)\<lparr>row_ins := new\<rparr>\<rparr>)
      else (False, s))"

definition cas_ins_head :: "addr \<Rightarrow> nat \<Rightarrow> addr option \<Rightarrow> addr option \<Rightarrow> store \<Rightarrow> bool \<times> store" where
  "cas_ins_head arr i expected new s =
     (if ins_arrays s arr i = expected
      then (True, s\<lparr>ins_arrays := (ins_arrays s)(arr := (ins_arrays s arr)(i := new))\<rparr>)
      else (False, s))"

definition race_row_upd :: "addr option \<Rightarrow> store \<Rightarrow> store" where
  "race_row_upd r s = (case r of None \<Rightarrow> s | Some a \<Rightarrow> s\<lparr>page := (page s)\<lparr>row_upd := Some a\<rparr>\<rparr>)"

definition race_row_ins :: "addr option \<Rightarrow> store \<Rightarrow> store" where
  "race_row_ins r s = (case r of None \<Rightarrow> s | Some a \<Rightarrow> s\<lparr>page := (page s)\<lparr>row_ins := Some a\<rparr>\<rparr>)"

definition race_ins_head :: "addr option \<Rightarrow> addr \<Rightarrow> nat \<Rightarrow> store \<Rightarrow> store" where
  "race_ins_head r arr i s =
     (case r of None \<Rightarrow> s
      | Some a \<Rightarrow> s\<lparr>ins_arrays := (ins_arrays s)(arr := (ins_arrays s arr)(i := Some a))\<rparr>)"

text \<open>Lines 49 to 59: allocate an update array as necessary.\<close>

definition row_upd_array_alloc :: "world \<Rightarrow> store \<Rightarrow> wt_error option \<times> store" where
  "row_upd_array_alloc w s =
     (if row_upd (page s) = None then
        (case wt_calloc s of
           (Inl e, s1) \<Rightarrow> (Some e, s1)
         | (Inr a, s1) \<Rightarrow>
             (case cas_row_upd None (Some a)
                     (race_row_upd (w_race_upd w)
                        (s1\<lparr>upd_arrays := (upd_arrays s1)(a := (\<lambda>i. None))\<rparr>)) of
                (swapped, s2) \<Rightarrow>
                  if swapped
                  then (None, wt_cache_page_inmem_incr
                                (ucast (entries (page s2)) * sizeof_ptr w) s2)
                  else (None, wt_free (Some a) s2)))
      else (None, s))"

text \<open>Lines 96 to 106: allocate the insert array as necessary.\<close>

definition row_ins_array_alloc :: "world \<Rightarrow> store \<Rightarrow> wt_error option \<times> store" where
  "row_ins_array_alloc w s =
     (if row_ins (page s) = None then
        (case wt_calloc s of
           (Inl e, s1) \<Rightarrow> (Some e, s1)
         | (Inr a, s1) \<Rightarrow>
             (case cas_row_ins None (Some a)
                     (race_row_ins (w_race_ins w)
                        (s1\<lparr>ins_arrays := (ins_arrays s1)(a := (\<lambda>i. None))\<rparr>)) of
                (swapped, s2) \<Rightarrow>
                  if swapped
                  then (None, wt_cache_page_inmem_incr
                                (ucast (entries (page s2) + 1) * sizeof_ptr w) s2)
                  else (None, wt_free (Some a) s2)))
      else (None, s))"

text \<open>
  Lines 110 to 142: allocate the \<open>WT_INSERT_HEAD\<close> as necessary, for the slot
  \<open>ins_headp = &arr[i]\<close>. The result is \<open>ins_head\<close> as line 141 leaves it.
\<close>

definition row_ins_head_alloc ::
  "world \<Rightarrow> addr \<Rightarrow> nat \<Rightarrow> wt_cursor_btree \<Rightarrow> store
     \<Rightarrow> (wt_error + addr option) \<times> wt_cursor_btree \<times> store"
where
  "row_ins_head_alloc w arr i cbt s =
     (case ins_arrays s arr i of
        Some h \<Rightarrow> (Inr (Some h), cbt, s)
      | None \<Rightarrow>
          (case wt_calloc s of
             (Inl e, s1) \<Rightarrow> (Inl e, cbt, s1)
           | (Inr t, s1) \<Rightarrow>
               (case cas_ins_head arr i None (Some t)
                       (race_ins_head (w_race_head w) arr i
                          (s1\<lparr>ins_heads := (ins_heads s1)
                                (t := \<lparr>head = (\<lambda>l. None), tail = (\<lambda>l. None)\<rparr>)\<rparr>)) of
                  (swapped, s2) \<Rightarrow>
                    if swapped then
                      (let s3 = wt_cache_page_inmem_incr (sizeof_WT_INSERT_HEAD w) s2
                       in (Inr (ins_arrays s3 arr i),
                           cbt\<lparr>cbt_ins_stack :=
                                 (\<lambda>l. if l < w_maxdepth w then Some (HeadSlot t l)
                                      else cbt_ins_stack cbt l),
                               cbt_next_stack :=
                                 (\<lambda>l. if l < w_maxdepth w then None else cbt_next_stack cbt l),
                               cbt_ins_head := Some t\<rparr>,
                           s3))
                    else
                      (let s3 = wt_free (Some t) s2
                       in (Inr (ins_arrays s3 arr i), cbt, s3)))))"

text \<open>
  \<open>__wt_row_insert_alloc\<close>: the item, its \<open>skipdepth\<close> forward pointers and the key are
  one allocation, whose size is returned.
\<close>

definition wt_row_insert_alloc ::
  "world \<Rightarrow> 8 word list \<Rightarrow> nat \<Rightarrow> store \<Rightarrow> (wt_error + addr \<times> 64 word) \<times> store"
where
  "wt_row_insert_alloc w k skipdepth s =
     (let ins_size = sizeof_WT_INSERT w + of_nat skipdepth * sizeof_ptr w + of_nat (length k)
      in case wt_calloc s of
           (Inl e, s1) \<Rightarrow> (Inl e, s1)
         | (Inr a, s1) \<Rightarrow>
             (Inr (a, ins_size),
              s1\<lparr>inserts := (inserts s1)
                    (a := \<lparr>ins_key = k, ins_upd = None, ins_next = (\<lambda>l. None)\<rparr>)\<rparr>))"

text \<open>
  Modelled from the spec: the wrappers \<open>__wt_update_serial\<close> and
  \<open>__wt_insert_serial\<close> are generated code outside the sources at hand. They run the
  serialization function under the page's ticket. On success the node is taken: its
  ownership passes to the page, the caller's pointer is cleared and the node's size is
  added to the page's in-memory byte accounting. On failure the node is freed once:
  either the wrapper frees it and clears the caller's pointer (\<open>w_serial_frees\<close>), or
  the caller keeps its pointer for its failure path to free. The results are the return
  code, the caller's pointer afterwards, for an update the obsolete list, and the store.
\<close>

definition wt_update_serial ::
  "world \<Rightarrow> upd_pp \<Rightarrow> addr option \<Rightarrow> addr \<Rightarrow> 64 word \<Rightarrow> store
     \<Rightarrow> (wt_error option \<times> addr option \<times> addr option \<times> store) option"
where
  "wt_update_serial w upd_entry old_upd upd upd_size s =
     (case wt_update_serial_func (w_update_check w) (w_visible_all w) (w_race_prune w)
             upd_entry old_upd upd s of
        None \<Rightarrow> None
      | Some (ret, obsolete, s1) \<Rightarrow>
          (case ret of
             Some e \<Rightarrow>
               if w_serial_frees w then Some (Some e, None, None, wt_free (Some upd) s1)
               else Some (Some e, Some upd, None, s1)
           | None \<Rightarrow> Some (None, None, obsolete, wt_cache_page_inmem_incr upd_size s1)))"

definition wt_insert_serial ::
  "world \<Rightarrow> addr \<Rightarrow> (nat \<Rightarrow> ins_pp option) \<Rightarrow> (nat \<Rightarrow> addr option) \<Rightarrow> addr \<Rightarrow> 64 word \<Rightarrow>
   nat \<Rightarrow> store \<Rightarrow> wt_error option \<times> addr option \<times> store"
where
  "wt_insert_serial w ins_head ins_stack next_stack new_ins ins_size skipdepth s =
     (case wt_insert_serial_func ins_head ins_stack next_stack new_ins skipdepth s of
        Inl e \<Rightarrow>
          if w_serial_frees w then (Some e, None, wt_free (Some new_ins) s)
          else (Some e, Some new_ins, s)
      | Inr s1 \<Rightarrow> (None, None, wt_cache_page_inmem_incr ins_size s1))"

text \<open>
  The code at the label \<open>err\<close> (lines 167 to 174), with the values of \<open>logged\<close>,
  \<open>ins\<close> and \<open>upd\<close> the jump arrives with.
\<close>

definition row_modify_err :: "bool \<Rightarrow> addr option \<Rightarrow> addr option \<Rightarrow> store \<Rightarrow> store" where
  "row_modify_err logged ins upd s =
     wt_free upd (wt_free ins (if logged then wt_txn_unmodify s else s))"

text \<open>
  Lines 47 to 64: the reference \<open>upd_entry\<close>. The result is \<open>None\<close> where the C code
  would dereference \<open>NULL\<close>.
\<close>

definition row_upd_entry ::
  "world \<Rightarrow> wt_cursor_btree \<Rightarrow> store \<Rightarrow> ((wt_error + upd_pp) \<times> store) option"
where
  "row_upd_entry w cbt s =
     (case cbt_ins cbt of
        None \<Rightarrow>
          (case row_upd_array_alloc w s of
             (Some e, s1) \<Rightarrow> Some (Inl e, s1)
           | (None, s1) \<Rightarrow>
               (case row_upd (page s1) of
                  None \<Rightarrow> None
                | Some arr \<Rightarrow> Some (Inr (RowUpdSlot arr (unat (cbt_slot cbt))), s1)))
      | Some ins \<Rightarrow> Some (Inr (InsUpdSlot ins), s))"

text \<open>The branch \<open>cbt->compare == 0\<close> of \<open>__wt_row_modify\<close> (lines 46 to 80).\<close>

definition row_modify_update ::
  "world \<Rightarrow> wt_cursor_btree \<Rightarrow> 8 word list option \<Rightarrow> store
     \<Rightarrow> (wt_error option \<times> wt_cursor_btree \<times> store) option"
where
  "row_modify_update w cbt val s =
     (case row_upd_entry w cbt s of
        None \<Rightarrow> None
      | Some (Inl e, s1) \<Rightarrow> Some (Some e, cbt, row_modify_err False None None s1)
      | Some (Inr upd_entry, s1) \<Rightarrow>
          (case w_update_check w s1 (read_upd_slot s1 upd_entry) of
             Some e \<Rightarrow> Some (Some e, cbt, row_modify_err False None None s1)
           | None \<Rightarrow>
               (case wt_update_alloc (sizeof_WT_UPDATE w) val s1 of
                  (Inl e, s2) \<Rightarrow> Some (Some e, cbt, row_modify_err False None None s2)
                | (Inr (upd, upd_size), s2) \<Rightarrow>
                    (case wt_txn_modify w upd s2 of
                       (Some e, s3) \<Rightarrow> Some (Some e, cbt, row_modify_err False None (Some upd) s3)
                     | (None, s3) \<Rightarrow>
                         (case wt_update_serial w upd_entry (read_upd_slot s1 upd_entry)
                                 upd upd_size s3 of
                            None \<Rightarrow> None
                          | Some (Some e, upd', obsolete, s4) \<Rightarrow>
                              Some (Some e, cbt, row_modify_err True None upd' s4)
                          | Some (None, upd', obsolete, s4) \<Rightarrow>
                              (case obsolete of
                                 None \<Rightarrow> Some (None, cbt, s4)
                               | Some ob \<Rightarrow>
                                   (case wt_update_obsolete_free (sizeof_WT_UPDATE w)
                                           (Some ob) s4 of
                                      None \<Rightarrow> None
                                    | Some s5 \<Rightarrow> Some (None, cbt, s5))))))))"

text \<open>
  The branch \<open>cbt->compare != 0\<close> (lines 81 to 164). The result is \<open>None\<close> where the C
  code would dereference \<open>NULL\<close>.
\<close>

definition row_modify_insert ::
  "world \<Rightarrow> wt_cursor_btree \<Rightarrow> 8 word list option \<Rightarrow> store
     \<Rightarrow> (wt_error option \<times> wt_cursor_btree \<times> store) option"
where
  "row_modify_insert w cbt val s =
     (case row_ins_array_alloc w s of
        (Some e, s1) \<Rightarrow> Some (Some e, cbt, row_modify_err False None None s1)
      | (None, s1) \<Rightarrow>
          (case row_ins (page s1) of
             None \<Rightarrow> None
           | Some arr \<Rightarrow>
               (case row_ins_head_alloc w arr
                       (unat (if cbt_search_smallest cbt then entries (page s) else cbt_slot cbt))
                       cbt s1 of
                  (Inl e, cbt1, s2) \<Rightarrow> Some (Some e, cbt1, row_modify_err False None None s2)
                | (Inr None, cbt1, s2) \<Rightarrow> None
                | (Inr (Some ins_head), cbt1, s2) \<Rightarrow>
                    (case wt_row_insert_alloc w (cbt_key cbt) (w_skipdepth w) s2 of
                       (Inl e, s3) \<Rightarrow> Some (Some e, cbt1, row_modify_err False None None s3)
                     | (Inr (ins, ins_size), s3) \<Rightarrow>
                         (case wt_update_alloc (sizeof_WT_UPDATE w) val s3 of
                            (Inl e, s4) \<Rightarrow>
                              Some (Some e, cbt1, row_modify_err False (Some ins) None s4)
                          | (Inr (upd, upd_size), s4) \<Rightarrow>
                              (case wt_txn_modify w upd s4 of
                                 (Some e, s5) \<Rightarrow>
                                   Some (Some e, cbt1,
                                         row_modify_err False (Some ins) (Some upd) s5)
                               | (None, s5) \<Rightarrow>
                                   (case wt_insert_serial w ins_head (cbt_ins_stack cbt1)
                                           (cbt_next_stack cbt1) ins (ins_size + upd_size)
                                           (w_skipdepth w)
                                           (write_upd_slot (InsUpdSlot ins) (Some upd) s5) of
                                      (Some e, ins', s6) \<Rightarrow>
                                        Some (Some e, cbt1\<lparr>cbt_ins := Some ins\<rparr>,
                                              row_modify_err True ins' (Some upd) s6)
                                    | (None, ins', s6) \<Rightarrow>
                                        Some (None, cbt1\<lparr>cbt_ins := Some ins\<rparr>, s6))))))))"

text \<open>\<open>__wt_row_modify\<close>: row-store insert, update and delete.\<close>

definition wt_row_modify ::
  "world \<Rightarrow> wt_cursor_btree \<Rightarrow> bool \<Rightarrow> store
     \<Rightarrow> (wt_error option \<times> wt_cursor_btree \<times> store) option"
where
  "wt_row_modify w cbt is_remove s =
     (if cbt_compare cbt = 0
      then row_modify_update w cbt (if is_remove then None else Some (cbt_value cbt)) s
      else row_modify_insert w cbt (if is_remove then None else Some (cbt_value cbt)) s)"

text \<open>
  Two relations between the store before and after a step: \<open>same_ptrs\<close>, the page's
  two array pointers and all insert arrays are the same; \<open>ptrs_kept\<close>, every such
  pointer that is set keeps its value.
\<close>

definition same_ptrs :: "store \<Rightarrow> store \<Rightarrow> bool" where
  "same_ptrs s s' =
     (row_upd (page s') = row_upd (page s) \<and> row_ins (page s') = row_ins (page s) \<and>
      ins_arrays s' = ins_arrays s \<and> next_free s \<le> next_free s')"

definition ptrs_kept :: "store \<Rightarrow> store \<Rightarrow> bool" where
  "ptrs_kept s s' =
     ((\<forall>p. row_upd (page s) = Some p \<longrightarrow> row_upd (page s') = Some p) \<and>
      (\<forall>p. row_ins (page s) = Some p \<longrightarrow> row_ins (page s') = Some p) \<and>
      (\<forall>arr j h. arr < next_free s \<and> ins_arrays s arr j = Some h \<longrightarrow>
         ins_arrays s' arr j = Some h) \<and>
      next_free s \<le> next_free s')"

section \<open>The workload driver\<close>

subsection \<open>The append table\<close>

text \<open>
  The globals of \<open>test/format/ops.c\<close> that \<open>table_append\<close> works on: \<open>g.rows\<close>,
  the array \<open>g.append\<close> (its length is \<open>g.append_max\<close>) and \<open>g.append_cnt\<close>.
\<close>

record append_state =
  rows :: "64 word"
  append_tab :: "64 word list"
  append_cnt :: "64 word"

text \<open>
  \<open>table_append_init\<close>: room for ten records per thread, all slots zero. (The
  allocation that fails ends the process.)
\<close>

definition table_append_init :: "32 word \<Rightarrow> append_state \<Rightarrow> append_state" where
  "table_append_init c_threads g =
     g\<lparr>append_tab := replicate (unat c_threads * 10) 0, append_cnt := 0\<rparr>"

text \<open>The scan \<open>for (p = g.append; p < ep; ++p) if (*p == v)\<close>: the first slot holding \<open>v\<close>.\<close>

fun find_slot :: "64 word \<Rightarrow> 64 word list \<Rightarrow> nat option" where
  "find_slot v [] = None"
| "find_slot v (x # xs) = (if x = v then Some 0 else map_option Suc (find_slot v xs))"

text \<open>
  The inner \<open>for (;;)\<close> of \<open>table_append\<close>: clean out the table, incrementing the
  total count of records until the next key is not found.
\<close>

function resolve_sweep :: "append_state \<Rightarrow> append_state" where
  "resolve_sweep g =
     (case find_slot (rows g + 1) (append_tab g) of
        None \<Rightarrow> g
      | Some i \<Rightarrow>
          resolve_sweep
            (g\<lparr>rows := append_tab g ! i, append_tab := (append_tab g)[i := 0],
               append_cnt := append_cnt g - 1\<rparr>))"
  by pat_completeness auto

termination resolve_sweep
proof (relation "measure (\<lambda>g. 2 * length (filter (\<lambda>x. x \<noteq> 0) (append_tab g)) +
    (if rows g + 1 = 0 then 1 else 0))")
  show "wf (measure (\<lambda>g. 2 * length (filter (\<lambda>x. x \<noteq> 0) (append_tab g)) +
    (if rows g + 1 = 0 then 1 else 0)))"
    by simp
next
  fix g :: append_state and i
  assume f: "find_slot (rows g + 1) (append_tab g) = Some i"
  have found: "i < length xs \<and> xs ! i = v" if "find_slot v xs = Some i" for v xs i
    using that by (induction xs arbitrary: i) (auto split: if_splits)
  have clear: "length (filter (\<lambda>x. x \<noteq> 0) (xs[i := 0 :: 64 word])) <
      length (filter (\<lambda>x. x \<noteq> 0) xs)" if "i < length xs" "xs ! i \<noteq> 0" for xs i
    using that
  proof (induction xs arbitrary: i)
    case Nil
    then show ?case by simp
  next
    case (Cons x xs)
    then show ?case by (cases i) auto
  qed
  from f have i: "i < length (append_tab g)" and v: "append_tab g ! i = rows g + 1"
    using found by blast+
  show "(g\<lparr>rows := append_tab g ! i, append_tab := (append_tab g)[i := 0],
            append_cnt := append_cnt g - 1\<rparr>, g)
        \<in> measure (\<lambda>g. 2 * length (filter (\<lambda>x. x \<noteq> 0) (append_tab g)) +
              (if rows g + 1 = 0 then 1 else 0))"
  proof (cases "rows g + 1 = 0")
    case True
    then have "append_tab g ! i = 0" using v by simp
    then have "(append_tab g)[i := 0] = append_tab g"
      using i by (simp add: list_update_same_conv)
    then show ?thesis using True \<open>append_tab g ! i = 0\<close> by simp
  next
    case False
    then have "append_tab g ! i \<noteq> 0" using v by simp
    from clear [OF i this] False show ?thesis by simp
  qed
qed

declare resolve_sweep.simps [simp del]

text \<open>
  One turn of the outer loop of \<open>table_append\<close>, between taking and releasing
  \<open>g.append_lock\<close>. The result is \<open>done\<close> and the globals.
\<close>

definition table_append_pass :: "64 word \<Rightarrow> append_state \<Rightarrow> bool \<times> append_state" where
  "table_append_pass keyno g =
     (if keyno = rows g + 1 then (True, resolve_sweep (g\<lparr>rows := keyno\<rparr>))
      else
        (case find_slot 0 (append_tab g) of
           None \<Rightarrow> (False, g)
         | Some i \<Rightarrow>
             (True, g\<lparr>append_tab := (append_tab g)[i := keyno],
                      append_cnt := append_cnt g + 1\<rparr>)))"

text \<open>
  \<open>table_append\<close>: repeat the turn until \<open>done\<close>. While the thread sleeps between
  two turns the other threads change the globals: \<open>others\<close>. The loop need not end.
\<close>

partial_function (option) table_append ::
  "(append_state \<Rightarrow> append_state) \<Rightarrow> 64 word \<Rightarrow> append_state \<Rightarrow> append_state option"
where
  "table_append others keyno g =
     (case table_append_pass keyno g of
        (done, g1) \<Rightarrow> if done then Some g1 else table_append others keyno (others g1))"

text \<open>
  The turns of all threads, in the order in which they hold the lock: \<open>ks\<close> are the keys
  of the turns. The result is the keys of the turns that ended with \<open>done\<close>, that is the
  appends that are recorded, and the globals.
\<close>

fun append_run :: "64 word list \<Rightarrow> append_state \<Rightarrow> 64 word list \<times> append_state" where
  "append_run [] g = ([], g)"
| "append_run (k # ks) g =
     (case table_append_pass k g of
        (done, g1) \<Rightarrow>
          (case append_run ks g1 of
             (cs, g2) \<Rightarrow> ((if done then [k] else []) @ cs, g2)))"

subsection \<open>Reading a row\<close>

datatype store_type = FIX | ROW | VAR

datatype cursor_call = Search | SearchNear | Next | Prev

text \<open>
  Modelled from the spec: \<open>mmrand\<close> is declared outside the sources at hand; it
  returns a number between \<open>min\<close> and \<open>max\<close>, here computed from the next value \<open>r\<close>
  of the random number generator.
\<close>

definition mmrand :: "nat \<Rightarrow> nat \<Rightarrow> nat \<Rightarrow> nat" where
  "mmrand r lo hi = lo + r mod (hi - lo + 1)"

text \<open>
  \<open>read_row\<close>, in a build without \<open>HAVE_BERKELEY_DB\<close>. The cursor is outside the
  sources at hand: \<open>search\<close> is what \<open>cursor->search\<close> would return (\<open>None\<close> is
  \<open>0\<close>), \<open>near\<close> what \<open>cursor->search_near\<close> would return and store in \<open>exact\<close>,
  \<open>get_value\<close> what \<open>cursor->get_value\<close> would return. \<open>sn\<close> is the function's
  static variable. The result is \<open>None\<close> where \<open>testutil_die\<close> ends the process, and
  otherwise the return code, the new \<open>sn\<close> and the cursor call made.
\<close>

type_synonym cursor_answers = "wt_error option \<times> (wt_error option \<times> int) \<times> wt_error option"

definition read_row ::
  "store_type \<Rightarrow> cursor_answers \<Rightarrow> bool \<Rightarrow> (wt_error option \<times> bool \<times> cursor_call) option"
where
  "read_row type answers sn =
     (case answers of
        (search, near, get_value) \<Rightarrow>
          (case (if sn then
                   ((if fst near = None \<and> snd near \<noteq> 0 then Some WT_NOTFOUND else fst near),
                    False, SearchNear)
                 else (search, True, Search)) of
             (ret, sn', call) \<Rightarrow>
               (case ret of
                  None \<Rightarrow> Some (get_value, sn', call)
                | Some WT_ROLLBACK \<Rightarrow> Some (Some WT_ROLLBACK, sn', call)
                | Some WT_NOTFOUND \<Rightarrow>
                    Some (if type = FIX then None else Some WT_NOTFOUND, sn', call)
                | Some e \<Rightarrow> None)))"

text \<open>
  Calls of \<open>read_row\<close> one after the other, by whatever callers: the cursor's answers to
  each call are the elements of the list. The result is the cursor calls made, up to the
  call in which the process ends.
\<close>

fun read_rows :: "store_type \<Rightarrow> cursor_answers list \<Rightarrow> bool \<Rightarrow> cursor_call list" where
  "read_rows type [] sn = []"
| "read_rows type (answers # rest) sn =
     (case read_row type answers sn of
        None \<Rightarrow> [if sn then SearchNear else Search]
      | Some (ret, sn', call) \<Rightarrow> call # read_rows type rest sn')"

subsection \<open>The cursor steps after an operation\<close>

text \<open>
  \<open>nextprev\<close>, in a build without \<open>HAVE_BERKELEY_DB\<close>: \<open>moved\<close> is what
  \<open>cursor->next\<close> or \<open>cursor->prev\<close> would return, \<open>got\<close> what reading the key and
  the value would. The result is \<open>None\<close> where \<open>testutil_die\<close> ends the process.
\<close>

definition nextprev :: "wt_error option \<Rightarrow> wt_error option \<Rightarrow> wt_error option option" where
  "nextprev moved got =
     (if moved = Some WT_ROLLBACK then Some (Some WT_ROLLBACK)
      else (let ret = (if moved = None then got else moved)
            in if ret \<noteq> None \<and> ret \<noteq> Some WT_NOTFOUND then None else Some ret))"

datatype outcome = Continues bool | Deadlock | Died

text \<open>
  The loop of lines 491 to 499 of \<open>ops\<close>. \<open>rnd np\<close> is the generator's value for the
  \<open>mmrand\<close> in the loop condition that is evaluated with the counter at \<open>np\<close>;
  \<open>moved np\<close> and \<open>got np\<close> are the cursor's answers in the call of \<open>nextprev\<close> made
  with the counter at \<open>np\<close>. The result is the cursor calls made and how the loop ends:
  with \<open>positioned\<close>, at the label \<open>deadlock\<close>, or with the process.
\<close>

function nextprev_steps ::
  "(nat \<Rightarrow> nat) \<Rightarrow> (nat \<Rightarrow> wt_error option) \<Rightarrow> (nat \<Rightarrow> wt_error option) \<Rightarrow> bool \<Rightarrow>
   cursor_call \<Rightarrow> nat \<Rightarrow> bool \<Rightarrow> cursor_call list \<times> outcome"
where
  "nextprev_steps rnd moved got intxn dir np positioned =
     (if np < mmrand (rnd np) 1 100 then
        (if \<not> positioned then ([], Continues positioned)
         else
           (case nextprev (moved np) (got np) of
              None \<Rightarrow> ([dir], Died)
            | Some ret \<Rightarrow>
                if ret = Some WT_ROLLBACK \<and> intxn then ([dir], Deadlock)
                else
                  (case nextprev_steps rnd moved got intxn dir (Suc np) (ret = None) of
                     (calls, out) \<Rightarrow> (dir # calls, out))))
      else ([], Continues positioned))"
  by pat_completeness auto
termination
proof (relation "measure (\<lambda>(rnd, moved, got, intxn, dir, np, positioned). 100 - np)")
  show "wf (measure (\<lambda>(rnd, moved, got, intxn, dir, np, positioned). 100 - np))"
    by simp
next
  fix rnd :: "nat \<Rightarrow> nat" and moved got :: "nat \<Rightarrow> wt_error option"
    and intxn :: bool and dir :: cursor_call and np :: nat and positioned :: bool
    and x2 :: "wt_error option"
  assume "np < mmrand (rnd np) 1 100"
  then have "np < 100" by (simp add: mmrand_def)
  then show "((rnd, moved, got, intxn, dir, Suc np, x2 = None),
              rnd, moved, got, intxn, dir, np, positioned)
             \<in> measure (\<lambda>(rnd, moved, got, intxn, dir, np, positioned). 100 - np)"
    by simp
qed

declare nextprev_steps.simps [simp del]

subsection \<open>One iteration of a worker\<close>

text \<open>
  The operations of a worker, in a build without \<open>HAVE_BERKELEY_DB\<close>. The cursor is
  outside the sources at hand: the arguments are what its methods would return (\<open>None\<close>
  is \<open>0\<close>). The result is \<open>None\<close> where \<open>testutil_die\<close> ends the process. The key
  number an operation is given is recorded where the operation is called.
\<close>

definition row_remove :: "wt_error option \<Rightarrow> wt_error option \<Rightarrow> wt_error option option" where
  "row_remove searched removed =
     (let ret = (if searched = None then removed else searched)
      in if ret = Some WT_ROLLBACK then Some (Some WT_ROLLBACK)
         else if ret \<noteq> None \<and> ret \<noteq> Some WT_NOTFOUND then None
         else Some ret)"

definition col_remove :: "wt_error option \<Rightarrow> wt_error option \<Rightarrow> wt_error option option" where
  "col_remove searched removed =
     (let ret = (if searched = None then removed else searched)
      in if ret = Some WT_ROLLBACK then Some (Some WT_ROLLBACK)
         else if ret \<noteq> None \<and> ret \<noteq> Some WT_NOTFOUND then None
         else Some ret)"

definition row_insert :: "wt_error option \<Rightarrow> wt_error option option" where
  "row_insert inserted =
     (if inserted = Some WT_ROLLBACK then Some (Some WT_ROLLBACK)
      else if inserted \<noteq> None \<and> inserted \<noteq> Some WT_NOTFOUND then None
      else Some None)"

definition row_update :: "wt_error option \<Rightarrow> wt_error option option" where
  "row_update updated =
     (if updated = Some WT_ROLLBACK then Some (Some WT_ROLLBACK)
      else if updated \<noteq> None \<and> updated \<noteq> Some WT_NOTFOUND then None
      else Some None)"

definition col_update :: "wt_error option \<Rightarrow> wt_error option option" where
  "col_update updated =
     (if updated = Some WT_ROLLBACK then Some (Some WT_ROLLBACK)
      else if updated \<noteq> None \<and> updated \<noteq> Some WT_NOTFOUND then None
      else Some None)"

text \<open>
  \<open>col_insert\<close>: the cursor assigns the record number, which \<open>get_key\<close> returns. The
  function stores it, narrowed to 32 bits, in the caller's \<open>keyno\<close> and enters it in
  the append table. The result is \<open>None\<close> if \<open>table_append\<close> does not return, and
  otherwise the return code (\<open>None\<close> where \<open>testutil_die\<close> or \<open>testutil_check\<close> ends
  the process), the caller's \<open>keyno\<close> and the globals.
\<close>

definition col_insert ::
  "(append_state \<Rightarrow> append_state) \<Rightarrow> wt_error option \<Rightarrow> wt_error option \<times> 64 word \<Rightarrow> 64 word \<Rightarrow>
   append_state \<Rightarrow> (wt_error option option \<times> 64 word \<times> append_state) option"
where
  "col_insert others inserted get_key keyno g =
     (if inserted \<noteq> None then
        Some (if inserted = Some WT_ROLLBACK then Some (Some WT_ROLLBACK) else None, keyno, g)
      else if fst get_key \<noteq> None then Some (None, keyno, g)
      else
        (case table_append others (snd get_key) g of
           None \<Rightarrow> None
         | Some g1 \<Rightarrow> Some (Some None, ucast (ucast (snd get_key) :: 32 word), g1)))"

text \<open>
  What a worker calls, with the key number the call is given (\<open>col_insert\<close> is given
  none), and for \<open>read_row\<close> the cursor call it makes.
\<close>

datatype worker_call =
    RowRemove "64 word" | ColRemove "64 word" | RowInsert "64 word" | ColInsert
  | RowUpdate "64 word" | ColUpdate "64 word" | ReadRow "64 word" cursor_call
  | NextPrev cursor_call

text \<open>
  The percentages \<open>g.c_delete_pct\<close>, \<open>g.c_insert_pct\<close> and \<open>g.c_write_pct\<close> of the
  configuration; what the cursors would answer in the operation; and the generator's
  values for the calls of \<open>mmrand\<close> of one iteration: for the key number, the operation,
  the direction, and the loop condition evaluated with the counter at \<open>np\<close>.
\<close>

record percentages =
  c_delete_pct :: "32 word"
  c_insert_pct :: "32 word"
  c_write_pct :: "32 word"

record op_answers =
  a_search :: "wt_error option"
  a_remove :: "wt_error option"
  a_insert :: "wt_error option"
  a_update :: "wt_error option"
  a_get_key :: "wt_error option \<times> 64 word"
  a_reset :: "wt_error option"
  a_read :: cursor_answers

record draws =
  d_keyno :: nat
  d_op :: nat
  d_dir :: nat
  d_np :: "nat \<Rightarrow> nat"

text \<open>
  Lines 416 to 483 of \<open>ops\<close>: the operation that \<open>op\<close> selects, on \<open>keyno\<close>. The
  result is \<open>None\<close> if the operation does not return, and otherwise the call made, the
  return code (\<open>None\<close> where the process ends), \<open>keyno\<close> and \<open>positioned\<close> after the
  operation, the static variable of \<open>read_row\<close>, and the globals. A column-store insert
  becomes an update (the label \<open>skip_insert\<close>) when the append table is full.
\<close>

definition ops_operation ::
  "store_type \<Rightarrow> percentages \<Rightarrow> (append_state \<Rightarrow> append_state) \<Rightarrow> op_answers \<Rightarrow> 32 word \<Rightarrow>
   64 word \<Rightarrow> bool \<Rightarrow> append_state \<Rightarrow>
   (worker_call \<times> wt_error option option \<times> 64 word \<times> bool \<times> bool \<times> append_state) option"
where
  "ops_operation type cfg others ans op keyno sn g =
     (if op < c_delete_pct cfg then
        (if type = ROW then
           Some (RowRemove keyno, row_remove (a_search ans) (a_remove ans), keyno,
                 row_remove (a_search ans) (a_remove ans) = Some None, sn, g)
         else
           Some (ColRemove keyno, col_remove (a_search ans) (a_remove ans), keyno,
                 col_remove (a_search ans) (a_remove ans) = Some None, sn, g))
      else if op < c_delete_pct cfg + c_insert_pct cfg then
        (if type = ROW then
           Some (RowInsert keyno, row_insert (a_insert ans), keyno, False, sn, g)
         else if append_cnt g \<ge> of_nat (length (append_tab g)) then
           Some (ColUpdate keyno, col_update (a_update ans), keyno,
                 col_update (a_update ans) = Some None, sn, g)
         else
           (case col_insert others (a_insert ans) (a_get_key ans) keyno g of
              None \<Rightarrow> None
            | Some (ret, keyno1, g1) \<Rightarrow>
                Some (ColInsert, if a_reset ans \<noteq> None then None else ret, keyno1, False,
                      sn, g1)))
      else if op < c_delete_pct cfg + c_insert_pct cfg + c_write_pct cfg then
        (if type = ROW then
           Some (RowUpdate keyno, row_update (a_update ans), keyno,
                 row_update (a_update ans) = Some None, sn, g)
         else
           Some (ColUpdate keyno, col_update (a_update ans), keyno,
                 col_update (a_update ans) = Some None, sn, g))
      else
        (case read_row type (a_read ans) sn of
           None \<Rightarrow> Some (ReadRow keyno (if sn then SearchNear else Search), None, keyno, False, sn, g)
         | Some (ret, sn1, call) \<Rightarrow>
             Some (ReadRow keyno call, Some ret, keyno, ret = None, sn1, g)))"

text \<open>
  Lines 490 to 506 of \<open>ops\<close>: the draw of \<open>dir\<close> from the generator's value
  \<open>rnd_dir\<close>, the loop, and the read of \<open>keyno\<close> that confirms the operation, with the
  cursor's answers \<open>confirm\<close>. The result is the calls made, how the lines end, and
  \<open>read_row\<close>'s static variable.
\<close>

definition ops_steps_and_confirm ::
  "store_type \<Rightarrow> nat \<Rightarrow> (nat \<Rightarrow> nat) \<Rightarrow> (nat \<Rightarrow> wt_error option) \<Rightarrow> (nat \<Rightarrow> wt_error option) \<Rightarrow>
   cursor_answers \<Rightarrow> bool \<Rightarrow> bool \<Rightarrow> bool \<Rightarrow> 64 word \<Rightarrow> worker_call list \<times> outcome \<times> bool"
where
  "ops_steps_and_confirm type rnd_dir rnd moved got confirm intxn positioned sn keyno =
     (case nextprev_steps rnd moved got intxn (if mmrand rnd_dir 0 1 \<noteq> 0 then Next else Prev)
             0 positioned of
        (calls, out) \<Rightarrow>
          (case out of
             Continues p \<Rightarrow>
               (case read_row type confirm sn of
                  None \<Rightarrow>
                    (map NextPrev calls @ [ReadRow keyno (if sn then SearchNear else Search)],
                     Died, sn)
                | Some (ret, sn1, call) \<Rightarrow>
                    (map NextPrev calls @ [ReadRow keyno call],
                     if ret = Some WT_ROLLBACK \<and> intxn then Deadlock else Continues (ret = None),
                     sn1))
           | Deadlock \<Rightarrow> (map NextPrev calls, Deadlock, sn)
           | Died \<Rightarrow> (map NextPrev calls, Died, sn)))"

text \<open>
  Lines 405 to 506 of \<open>ops\<close>, one iteration of a worker from the draw of the key
  number on: the operation, the cursor steps and the confirming read. An operation that
  returns \<open>WT_ROLLBACK\<close> inside a transaction sends control to the label \<open>deadlock\<close>.
  The result is \<open>None\<close> if the operation does not return, and otherwise the calls made,
  how the iteration ends, \<open>read_row\<close>'s static variable, and the globals.
\<close>

definition ops_iteration ::
  "store_type \<Rightarrow> percentages \<Rightarrow> (append_state \<Rightarrow> append_state) \<Rightarrow> op_answers \<Rightarrow> draws \<Rightarrow>
   (nat \<Rightarrow> wt_error option) \<Rightarrow> (nat \<Rightarrow> wt_error option) \<Rightarrow> cursor_answers \<Rightarrow> bool \<Rightarrow> bool \<Rightarrow> bool \<Rightarrow>
   append_state \<Rightarrow> (worker_call list \<times> outcome \<times> bool \<times> append_state) option"
where
  "ops_iteration type cfg others ans dr moved got confirm intxn readonly sn g =
     (let keyno = of_nat (mmrand (d_keyno dr) 1 (unat (ucast (rows g) :: 32 word)));
          op = (if readonly then - 1 else of_nat (mmrand (d_op dr) 1 100))
      in case ops_operation type cfg others ans op keyno sn g of
           None \<Rightarrow> None
         | Some (opc, ret, keyno1, positioned, sn1, g1) \<Rightarrow>
             (case ret of
                None \<Rightarrow> Some ([opc], Died, sn1, g1)
              | Some r \<Rightarrow>
                  if r = Some WT_ROLLBACK \<and> intxn then Some ([opc], Deadlock, sn1, g1)
                  else
                    (case ops_steps_and_confirm type (d_dir dr) (d_np dr) moved got confirm
                            intxn positioned sn1 keyno1 of
                       (calls, out, sn2) \<Rightarrow> Some (opc # calls, out, sn2, g1))))"

section \<open>Concrete stores\<close>

text \<open>
  An idle page: nothing allocated, every pointer \<open>NULL\<close>, so that the skip-list head
  at address \<open>0\<close> is empty at every level. A cursor positioned on that empty head has
  \<open>ins_stack[i] = &head->head[i]\<close> and \<open>next_stack[i] = NULL\<close>.
\<close>

definition page0 :: wt_page where
  "page0 = \<lparr>entries = 2, row_upd = None, row_ins = None, memory_footprint = 0,
             write_gen_wrapped = False, page_modified = False\<rparr>"

definition store0 :: store where
  "store0 = \<lparr>page = page0,
              upd_arrays = (\<lambda>a i. None), ins_arrays = (\<lambda>a i. None),
              ins_heads = (\<lambda>a. \<lparr>head = (\<lambda>i. None), tail = (\<lambda>i. None)\<rparr>),
              inserts = (\<lambda>a. \<lparr>ins_key = [], ins_upd = None, ins_next = (\<lambda>i. None)\<rparr>),
              updates = (\<lambda>a. \<lparr>txnid = 0, upd_next = None, upd_deleted = False,
                                u_size = 0, upd_data = []\<rparr>),
              next_free = 100, alloc_fails = [], trace = []\<rparr>"

definition stack0 :: "nat \<Rightarrow> ins_pp option" where
  "stack0 i = Some (HeadSlot 0 i)"

definition next0 :: "nat \<Rightarrow> addr option" where
  "next0 i = None"

text \<open>
  A skip list at head \<open>0\<close> that holds the items \<open>5\<close> and \<open>7\<close>, in this order:
  \<open>5\<close> is linked at the levels \<open>0\<close>, \<open>1\<close> and \<open>2\<close>, and \<open>7\<close> at level \<open>0\<close> only,
  so that the tail is \<open>7\<close> at level \<open>0\<close> and \<open>5\<close> at the levels \<open>1\<close> and \<open>2\<close>. A
  cursor positioned for an insert right after \<open>5\<close> has \<open>ins_stack[i] = &5->next[i]\<close>;
  the next item is \<open>7\<close> at level \<open>0\<close> and there is none above.
\<close>

definition store_list :: store where
  "store_list =
     store0\<lparr>ins_heads := (ins_heads store0)
              (0 := \<lparr>head = (\<lambda>i. if i < 3 then Some 5 else None),
                      tail = (\<lambda>i. if i = 0 then Some 7 else if i < 3 then Some 5 else None)\<rparr>),
            inserts := (inserts store0)
              (5 := \<lparr>ins_key = [1], ins_upd = None,
                      ins_next = (\<lambda>i. if i = 0 then Some 7 else None)\<rparr>,
               7 := \<lparr>ins_key = [3], ins_upd = None, ins_next = (\<lambda>i. None)\<rparr>)\<rparr>"

definition stack_after5 :: "nat \<Rightarrow> ins_pp option" where
  "stack_after5 i = Some (NextSlot 5 i)"

definition next_after5 :: "nat \<Rightarrow> addr option" where
  "next_after5 i = (if i = 0 then Some 7 else None)"


text \<open>
  A page whose slot \<open>0\<close> has the version chain \<open>1, 2, 3, 4\<close> (newest first), with
  transaction ids \<open>30, 20, 10, 5\<close>; update \<open>3\<close> is a tombstone.
\<close>

definition store_chain :: store where
  "store_chain =
     store0\<lparr>page := page0\<lparr>row_upd := Some 50, memory_footprint := 1000\<rparr>,
            upd_arrays := (upd_arrays store0)(50 := (\<lambda>i. None)(0 := Some 1)),
            updates := (updates store0)
              (1 := \<lparr>txnid = 30, upd_next = Some 2, upd_deleted = False, u_size = 5,
                      upd_data = [1, 2, 3, 4, 5]\<rparr>,
               2 := \<lparr>txnid = 20, upd_next = Some 3, upd_deleted = False, u_size = 4,
                      upd_data = [1, 2, 3, 4]\<rparr>,
               3 := \<lparr>txnid = 10, upd_next = Some 4, upd_deleted = True, u_size = 0,
                      upd_data = []\<rparr>,
               4 := \<lparr>txnid = 5, upd_next = None, upd_deleted = False, u_size = 7,
                      upd_data = [1, 2, 3, 4, 5, 6, 7]\<rparr>)\<rparr>"

text \<open>
  A world without racing threads, and a cursor that a search has left before slot \<open>1\<close>
  of a page without insert lists.
\<close>

definition w0 :: world where
  "w0 = \<lparr>w_update_check = (\<lambda>s h. None), w_visible_all = (\<lambda>t. t \<le> 20),
          w_txn_modify = Inr 40, w_skipdepth = 2, w_maxdepth = 10,
          w_race_upd = None, w_race_ins = None, w_race_head = None, w_race_prune = False,
          w_serial_frees = True, sizeof_WT_UPDATE = 24, sizeof_WT_INSERT = 32, sizeof_WT_INSERT_HEAD = 160,
          sizeof_ptr = 8\<rparr>"

definition cbt0 :: wt_cursor_btree where
  "cbt0 = \<lparr>cbt_key = [107], cbt_value = [118], cbt_compare = 1, cbt_ins = None,
            cbt_slot = 1, cbt_search_smallest = False,
            cbt_ins_stack = (\<lambda>l. None), cbt_next_stack = (\<lambda>l. None),
            cbt_ins_head = None, cbt_write_gen = 0\<rparr>"

text \<open>
  For the driver: a table with 100 rows; a generator whose first value gives the bound 100
  and whose later values give the bound 1; a cursor whose every move succeeds; the
  answers of a cursor that finds the key, and of one that finds a neighbour only.
\<close>

definition g100 :: append_state where
  "g100 = \<lparr>rows = 100, append_tab = [], append_cnt = 0\<rparr>"

definition rnd_once :: "nat \<Rightarrow> nat" where
  "rnd_once np = (if np = 0 then 99 else 0)"

definition cursor_ok :: "nat \<Rightarrow> wt_error option" where
  "cursor_ok np = None"

definition found_exact :: cursor_answers where
  "found_exact = (None, (None, 0), None)"

definition found_near :: cursor_answers where
  "found_near = (None, (None, 1), None)"

text \<open>
  For one iteration of a worker: percentages that make the drawn values 1 to 9 a remove,
  10 to 29 an insert, 30 to 59 an update and the rest a read; cursors that answer \<open>0\<close>
  to every call of the operation, the record number of an insert being 101; a table with
  100 rows and room in the append table; the draws of the key number 7, of an update or
  an insert, and of the direction \<open>next\<close>, with the bounds of \<open>rnd_once\<close> or with the
  bound 100 throughout; a cursor that finds no next row, and one whose second move is
  rolled back.
\<close>

definition pct0 :: percentages where
  "pct0 = \<lparr>c_delete_pct = 10, c_insert_pct = 20, c_write_pct = 30\<rparr>"

definition ans_ok :: op_answers where
  "ans_ok = \<lparr>a_search = None, a_remove = None, a_insert = None, a_update = None,
             a_get_key = (None, 101), a_reset = None, a_read = found_exact\<rparr>"

definition g_room :: append_state where
  "g_room = \<lparr>rows = 100, append_tab = [0, 0], append_cnt = 0\<rparr>"

definition draws_update :: draws where
  "draws_update = \<lparr>d_keyno = 6, d_op = 39, d_dir = 1, d_np = rnd_once\<rparr>"

definition draws_long :: draws where
  "draws_long = \<lparr>d_keyno = 6, d_op = 39, d_dir = 1, d_np = (\<lambda>np. 99)\<rparr>"

definition draws_insert :: draws where
  "draws_insert = \<lparr>d_keyno = 6, d_op = 14, d_dir = 1, d_np = (\<lambda>np. 99)\<rparr>"

definition cursor_end :: "nat \<Rightarrow> wt_error option" where
  "cursor_end np = Some WT_NOTFOUND"

definition cursor_rollback :: "nat \<Rightarrow> wt_error option" where
  "cursor_rollback np = (if np = 1 then Some WT_ROLLBACK else None)"

section \<open>Properties of the insert serialization function\<close>

lemma read_write_slot [simp]:
  "read_slot (write_slot p v s) q = (if p = q then v else read_slot s q)"
  by (cases p; cases q) (auto simp: read_slot_def write_slot_def)

lemma read_slot_set_tail [simp]: "read_slot (set_tail h i v s) q = read_slot s q"
  by (cases q) (auto simp: read_slot_def set_tail_def)

lemma tail_write_slot [simp]:
  "tail (ins_heads (write_slot p v s) h) j = tail (ins_heads s h) j"
  by (cases p) (auto simp: write_slot_def)

lemma tail_set_tail [simp]:
  "tail (ins_heads (set_tail h i v s) h') j =
     (if h' = h \<and> j = i then v else tail (ins_heads s h') j)"
  by (auto simp: set_tail_def)

lemma read_slot_link_level:
  "read_slot (insert_link_level h new st i s) p =
     (if st i = Some p then Some new else read_slot s p)"
  by (auto simp: insert_link_level_def Let_def split: option.splits)

lemma tail_link_level:
  "tail (ins_heads (insert_link_level h new st i s) h') j =
     (if h' = h \<and> j = i \<and> is_new_tail s h st i then Some new else tail (ins_heads s h') j)"
  by (auto simp: insert_link_level_def Let_def split: option.splits)

lemma is_new_tail_link_level:
  "j \<noteq> i \<Longrightarrow> is_new_tail (insert_link_level h new st i s) h st j = is_new_tail s h st j"
  by (simp add: is_new_tail_def tail_link_level)

lemma read_slot_insert_link:
  "read_slot (insert_link h new st d i s) p =
     (if \<exists>j. i \<le> j \<and> j < d \<and> st j = Some p then Some new else read_slot s p)"
proof (induction h new st d i s rule: insert_link.induct)
  case (1 h new st d i s)
  show ?case
  proof (cases "i < d")
    case False
    then show ?thesis by (subst insert_link.simps) auto
  next
    case True
    have split: "(\<exists>j. i \<le> j \<and> j < d \<and> st j = Some p) =
          (st i = Some p \<or> (\<exists>j. Suc i \<le> j \<and> j < d \<and> st j = Some p))"
      by (metis Suc_leI le_neq_implies_less Suc_leD le_refl True)
    have step: "insert_link h new st d i s =
          insert_link h new st d (Suc i) (insert_link_level h new st i s)"
      using True by (subst insert_link.simps) simp
    show ?thesis
      unfolding step "1.IH"[OF True] read_slot_link_level split by auto
  qed
qed

lemma tail_insert_link:
  "tail (ins_heads (insert_link h new st d i s) h') j =
     (if h' = h \<and> i \<le> j \<and> j < d \<and> is_new_tail s h st j then Some new
      else tail (ins_heads s h') j)"
proof (induction h new st d i s rule: insert_link.induct)
  case (1 h new st d i s)
  show ?case
  proof (cases "i < d")
    case False
    then show ?thesis by (subst insert_link.simps) auto
  next
    case True
    have step: "insert_link h new st d i s =
          insert_link h new st d (Suc i) (insert_link_level h new st i s)"
      using True by (subst insert_link.simps) simp
    show ?thesis
    proof (cases "Suc i \<le> j")
      case le: True
      then have "j \<noteq> i" by simp
      then show ?thesis using le
        unfolding step "1.IH"[OF True] tail_link_level
        by (simp add: is_new_tail_link_level)
    next
      case False
      then have "j < i \<or> j = i" by auto
      then show ?thesis using True
        unfolding step "1.IH"[OF True] tail_link_level
        by auto
    qed
  qed
qed

lemma tail_insert_set_next:
  "tail (ins_heads (insert_set_next new st d i s) h) j = tail (ins_heads s h) j"
proof (induction new st d i s rule: insert_set_next.induct)
  case (1 new st d i s)
  show ?case
    by (subst insert_set_next.simps) (auto simp: "1.IH" split: option.splits)
qed

lemma read_slot_insert_set_next_other:
  "\<forall>j. i \<le> j \<and> j < d \<longrightarrow> p \<noteq> NextSlot new j \<Longrightarrow>
   read_slot (insert_set_next new st d i s) p = read_slot s p"
proof (induction new st d i s rule: insert_set_next.induct)
  case (1 new st d i s)
  show ?case
  proof (cases "i < d")
    case False
    then show ?thesis by (subst insert_set_next.simps) auto
  next
    case True
    have a: "\<forall>j. Suc i \<le> j \<and> j < d \<longrightarrow> p \<noteq> NextSlot new j" using "1.prems" by auto
    have b: "p \<noteq> NextSlot new i" using "1.prems" True by auto
    show ?thesis using b
      by (subst insert_set_next.simps) (auto simp: True "1.IH"[OF True a] split: option.splits)
  qed
qed

lemma read_slot_insert_set_next_new:
  "\<forall>j k. j < d \<and> k < d \<longrightarrow> st j \<noteq> Some (NextSlot new k) \<Longrightarrow>
   i \<le> k \<Longrightarrow> k < d \<Longrightarrow> st k = Some p \<Longrightarrow>
   read_slot (insert_set_next new st d i s) (NextSlot new k) = read_slot s p"
proof (induction new st d i s rule: insert_set_next.induct)
  case (1 new st d i s)
  have id: "i < d" using "1.prems" by simp
  show ?case
  proof (cases "k = i")
    case True
    have "read_slot (insert_set_next new st d (Suc i)
            (case st i of None \<Rightarrow> s | Some p \<Rightarrow> write_slot (NextSlot new i) (read_slot s p) s))
            (NextSlot new k) =
          read_slot (case st i of None \<Rightarrow> s | Some p \<Rightarrow> write_slot (NextSlot new i) (read_slot s p) s)
            (NextSlot new k)"
      by (rule read_slot_insert_set_next_other) (simp add: True)
    then show ?thesis using True "1.prems" id
      by (subst insert_set_next.simps) simp
  next
    case False
    then have k: "Suc i \<le> k" using "1.prems" by simp
    obtain q where q: "st i = Some q \<or> st i = None" by auto
    have pn: "p \<noteq> NextSlot new i" using "1.prems" id by metis
    have "read_slot (insert_set_next new st d (Suc i)
            (case st i of None \<Rightarrow> s | Some p \<Rightarrow> write_slot (NextSlot new i) (read_slot s p) s))
            (NextSlot new k) =
          read_slot (case st i of None \<Rightarrow> s | Some p \<Rightarrow> write_slot (NextSlot new i) (read_slot s p) s) p"
      using "1.IH"[OF id "1.prems"(1) k "1.prems"(3,4)] by simp
    then show ?thesis using pn id
      by (subst insert_set_next.simps) (auto split: option.splits)
  qed
qed

lemma insert_position_check_iff:
  "insert_position_check s h st nx d i =
     (if \<forall>j. i \<le> j \<and> j < d \<longrightarrow> level_ok s h st nx j then None else Some WT_RESTART)"
proof (induction s h st nx d i rule: insert_position_check.induct)
  case (1 s h st nx d i)
  show ?case
  proof (cases "i < d")
    case False
    then show ?thesis by (simp add: insert_position_check.simps)
  next
    case True
    have split: "(\<forall>j. i \<le> j \<and> j < d \<longrightarrow> level_ok s h st nx j) =
          (level_ok s h st nx i \<and> (\<forall>j. Suc i \<le> j \<and> j < d \<longrightarrow> level_ok s h st nx j))"
      by (metis Suc_leI le_neq_implies_less Suc_leD le_refl True)
    show ?thesis
    proof (cases "st i")
      case None
      then show ?thesis using True
        by (subst insert_position_check.simps) (auto simp: level_ok_def)
    next
      case (Some p)
      show ?thesis
      proof (cases "read_slot s p = nx i")
        case False
        then show ?thesis using True Some
          by (subst insert_position_check.simps) (auto simp: level_ok_def)
      next
        case rd: True
        show ?thesis
        proof (cases "tail (ins_heads s h) i")
          case None
          then show ?thesis using True Some rd "1.IH"(1)[OF True Some _ None]
            apply (subst insert_position_check.simps) 
            apply (simp only: split)
            apply (auto simp: level_ok_def)
            done
        next
          case (Some t)
          then show ?thesis using True \<open>st i = Some p\<close> rd "1.IH"(2)[OF True \<open>st i = Some p\<close> _ Some]
            apply (subst insert_position_check.simps) 
            apply (simp only: split)
            apply (auto simp: level_ok_def)
            done
        qed
      qed
    qed
  qed
qed


lemma insert_serial_ok_iff:
  "(\<exists>s'. wt_insert_serial_func h st nx new d s = Inr s') =
     (\<not> write_gen_wrapped (page s) \<and> (\<forall>i<d. level_ok s h st nx i))"
  by (auto simp: wt_insert_serial_func_def wt_page_write_gen_wrapped_check_def
      insert_position_check_iff split: option.splits)

lemma insert_serial_restart:
  "i < d \<Longrightarrow> \<not> level_ok s h st nx i \<Longrightarrow> wt_insert_serial_func h st nx new d s = Inl WT_RESTART"
  by (auto simp: wt_insert_serial_func_def wt_page_write_gen_wrapped_check_def
      insert_position_check_iff split: option.splits)

lemma insert_serial_result:
  "wt_insert_serial_func h st nx new d s = Inr s' \<Longrightarrow>
   s' = wt_page_and_tree_modify_set (insert_link h new st d 0 (insert_set_next new st d 0 s))"
  by (auto simp: wt_insert_serial_func_def split: option.splits)

lemma read_slot_modify_set [simp]: "read_slot (wt_page_and_tree_modify_set s) p = read_slot s p"
  by (cases p) (simp_all add: wt_page_and_tree_modify_set_def read_slot_def)

lemma ins_heads_modify_set [simp]: "ins_heads (wt_page_and_tree_modify_set s) = ins_heads s"
  by (simp add: wt_page_and_tree_modify_set_def)

text \<open>
  C1. For a node of height \<open>skipdepth\<close> and every level \<open>i < skipdepth\<close>: the step
  returns restart if the predecessor pointer \<open>*ins_stack[i]\<close> is no longer
  \<open>next_stack[i]\<close>; and, when \<open>next_stack[i]\<close> is absent, it returns restart if
  \<open>tail[i]\<close> is present and \<open>ins_stack[i]\<close> is not the address of that tail's
  \<open>next[i]\<close>. The step publishes (returns success) exactly when the write generation
  has not wrapped and every level below \<open>skipdepth\<close> passes both checks.
\<close>

theorem insert_serial_position_checks:
  "(i < skipdepth \<and> ins_stack i = Some p \<and> read_slot s p \<noteq> next_stack i \<longrightarrow>
      wt_insert_serial_func ins_head ins_stack next_stack new_ins skipdepth s = Inl WT_RESTART) \<and>
   (i < skipdepth \<and> next_stack i = None \<and> tail (ins_heads s ins_head) i = Some t \<and>
      ins_stack i \<noteq> Some (NextSlot t i) \<longrightarrow>
      wt_insert_serial_func ins_head ins_stack next_stack new_ins skipdepth s = Inl WT_RESTART) \<and>
   ((\<exists>s'. wt_insert_serial_func ins_head ins_stack next_stack new_ins skipdepth s = Inr s') =
      (\<not> write_gen_wrapped (page s) \<and>
       (\<forall>k < skipdepth. \<exists>q. ins_stack k = Some q \<and> read_slot s q = next_stack k \<and>
          (next_stack k = None \<longrightarrow> is_new_tail s ins_head ins_stack k))))"
proof (intro conjI impI)
  assume a: "i < skipdepth \<and> ins_stack i = Some p \<and> read_slot s p \<noteq> next_stack i"
  then have "\<not> level_ok s ins_head ins_stack next_stack i"
    by (simp add: level_ok_def)
  with a show "wt_insert_serial_func ins_head ins_stack next_stack new_ins skipdepth s = Inl WT_RESTART"
    by (blast intro: insert_serial_restart)
next
  assume a: "i < skipdepth \<and> next_stack i = None \<and> tail (ins_heads s ins_head) i = Some t \<and>
      ins_stack i \<noteq> Some (NextSlot t i)"
  then have "\<not> level_ok s ins_head ins_stack next_stack i"
    by (auto simp: level_ok_def split: option.splits)
  with a show "wt_insert_serial_func ins_head ins_stack next_stack new_ins skipdepth s = Inl WT_RESTART"
    by (blast intro: insert_serial_restart)
next
  have "\<And>k. level_ok s ins_head ins_stack next_stack k =
      (\<exists>q. ins_stack k = Some q \<and> read_slot s q = next_stack k \<and>
          (next_stack k = None \<longrightarrow> is_new_tail s ins_head ins_stack k))"
    by (auto simp: level_ok_def is_new_tail_def split: option.splits)
  then show "(\<exists>s'. wt_insert_serial_func ins_head ins_stack next_stack new_ins skipdepth s = Inr s') =
      (\<not> write_gen_wrapped (page s) \<and>
       (\<forall>k < skipdepth. \<exists>q. ins_stack k = Some q \<and> read_slot s q = next_stack k \<and>
          (next_stack k = None \<longrightarrow> is_new_tail s ins_head ins_stack k)))"
    by (simp add: insert_serial_ok_iff)
qed

theorem insert_serial_position_checks_witness:
  "wt_insert_serial_func 0 stack0 next0 1 2 (write_slot (HeadSlot 0 0) (Some 7) store0) = Inl WT_RESTART \<and>
   wt_insert_serial_func 0 stack0 next0 1 2
     (set_tail 0 1 (Some 7) (write_slot (NextSlot 7 1) None store0)) = Inl WT_RESTART \<and>
   (\<exists>s'. wt_insert_serial_func 0 stack0 next0 1 2 store0 = Inr s')"
  using insert_serial_position_checks [where i = 0 and skipdepth = 2 and ins_stack = stack0
      and p = "HeadSlot 0 0" and s = "write_slot (HeadSlot 0 0) (Some 7) store0"
      and next_stack = next0 and ins_head = 0 and new_ins = 1 and t = 7]
    insert_serial_position_checks [where i = 1 and skipdepth = 2 and ins_stack = stack0
      and p = "HeadSlot 0 1"
      and s = "set_tail 0 1 (Some 7) (write_slot (NextSlot 7 1) None store0)"
      and next_stack = next0 and ins_head = 0 and new_ins = 1 and t = 7]
    insert_serial_position_checks [where i = 0 and skipdepth = 2 and ins_stack = stack0
      and p = "HeadSlot 0 0" and s = store0
      and next_stack = next0 and ins_head = 0 and new_ins = 1 and t = 7]
  by (simp add: stack0_def next0_def store0_def page0_def is_new_tail_def read_slot_def
      write_slot_def set_tail_def)

text \<open>
  C4. After a successful publish of a node of height \<open>skipdepth\<close> that no entry of the
  predecessor stack points into: at each level \<open>i < skipdepth\<close> the predecessor pointer
  \<open>*ins_stack[i]\<close> is the new node, the new node's \<open>next[i]\<close> is the successor that
  pointer held before, and \<open>tail[i]\<close> is the new node if \<open>tail[i]\<close> was absent or
  \<open>ins_stack[i]\<close> was the address of the old tail's \<open>next[i]\<close>, and is unchanged
  otherwise. The tails of the levels from \<open>skipdepth\<close> up are unchanged, and so is every
  forward pointer other than the predecessor pointers and the new node's \<open>next\<close> below
  \<open>skipdepth\<close>.
\<close>

theorem insert_publish_links:
  assumes ok: "wt_insert_serial_func ins_head ins_stack next_stack new_ins skipdepth s = Inr s'"
    and fresh: "\<forall>i < skipdepth. \<forall>j < skipdepth. ins_stack i \<noteq> Some (NextSlot new_ins j)"
  shows "(\<forall>i < skipdepth. \<exists>p. ins_stack i = Some p \<and>
            read_slot s' p = Some new_ins \<and>
            read_slot s' (NextSlot new_ins i) = read_slot s p \<and>
            read_slot s p = next_stack i \<and>
            tail (ins_heads s' ins_head) i =
              (if tail (ins_heads s ins_head) i = None \<or>
                  (\<exists>t. tail (ins_heads s ins_head) i = Some t \<and> p = NextSlot t i)
               then Some new_ins
               else tail (ins_heads s ins_head) i)) \<and>
         (\<forall>i\<ge>skipdepth. tail (ins_heads s' ins_head) i = tail (ins_heads s ins_head) i) \<and>
         (\<forall>p. (\<forall>i < skipdepth. ins_stack i \<noteq> Some p \<and> p \<noteq> NextSlot new_ins i) \<longrightarrow>
            read_slot s' p = read_slot s p)"
proof -
  let ?s1 = "insert_set_next new_ins ins_stack skipdepth 0 s"
  have s': "s' = wt_page_and_tree_modify_set (insert_link ins_head new_ins ins_stack skipdepth 0 ?s1)"
    using ok by (rule insert_serial_result)
  have lv: "\<forall>i < skipdepth. level_ok s ins_head ins_stack next_stack i"
    using ok insert_serial_ok_iff [of ins_head ins_stack next_stack new_ins skipdepth s] by blast
  have nt: "\<And>i. is_new_tail ?s1 ins_head ins_stack i = is_new_tail s ins_head ins_stack i"
    by (simp add: is_new_tail_def tail_insert_set_next)
  have fresh': "\<forall>j k. j < skipdepth \<and> k < skipdepth \<longrightarrow> ins_stack j \<noteq> Some (NextSlot new_ins k)"
    using fresh by blast
  have levels: "\<exists>p. ins_stack i = Some p \<and>
            read_slot s' p = Some new_ins \<and>
            read_slot s' (NextSlot new_ins i) = read_slot s p \<and>
            read_slot s p = next_stack i \<and>
            tail (ins_heads s' ins_head) i =
              (if tail (ins_heads s ins_head) i = None \<or>
                  (\<exists>t. tail (ins_heads s ins_head) i = Some t \<and> p = NextSlot t i)
               then Some new_ins
               else tail (ins_heads s ins_head) i)" if i: "i < skipdepth" for i
  proof -
    from lv i obtain p where p: "ins_stack i = Some p" "read_slot s p = next_stack i"
      by (auto simp: level_ok_def split: option.splits)
    have 1: "read_slot s' p = Some new_ins"
      using i p by (auto simp: s' read_slot_insert_link)
    have "\<not> (\<exists>j. 0 \<le> j \<and> j < skipdepth \<and> ins_stack j = Some (NextSlot new_ins i))"
      using fresh i by blast
    then have "read_slot s' (NextSlot new_ins i) = read_slot ?s1 (NextSlot new_ins i)"
      unfolding s' read_slot_modify_set read_slot_insert_link by (simp only: if_False)
    also have "\<dots> = read_slot s p"
      using fresh' i p(1) by (intro read_slot_insert_set_next_new) auto
    finally have 2: "read_slot s' (NextSlot new_ins i) = read_slot s p" .
    have cond: "is_new_tail s ins_head ins_stack i =
        (tail (ins_heads s ins_head) i = None \<or>
           (\<exists>t. tail (ins_heads s ins_head) i = Some t \<and> p = NextSlot t i))"
      using p(1) by (auto simp: is_new_tail_def split: option.splits)
    have 3: "tail (ins_heads s' ins_head) i =
              (if tail (ins_heads s ins_head) i = None \<or>
                  (\<exists>t. tail (ins_heads s ins_head) i = Some t \<and> p = NextSlot t i)
               then Some new_ins
               else tail (ins_heads s ins_head) i)"
      using i unfolding cond [symmetric]
      by (simp add: s' tail_insert_link nt tail_insert_set_next)
    from p 1 2 3 show ?thesis by blast
  qed
  have tails: "tail (ins_heads s' ins_head) i = tail (ins_heads s ins_head) i"
    if "i \<ge> skipdepth" for i
    using that by (simp add: s' tail_insert_link tail_insert_set_next)
  have frame: "read_slot s' p = read_slot s p"
    if "\<forall>i < skipdepth. ins_stack i \<noteq> Some p \<and> p \<noteq> NextSlot new_ins i" for p
  proof -
    have "read_slot s' p = read_slot ?s1 p"
      using that by (auto simp: s' read_slot_insert_link)
    also have "\<dots> = read_slot s p"
      using that by (intro read_slot_insert_set_next_other) auto
    finally show ?thesis .
  qed
  from levels tails frame show ?thesis by blast
qed

theorem insert_publish_links_witness:
  "(\<exists>s'. wt_insert_serial_func 0 stack0 next0 1 2 store0 = Inr s' \<and>
     (\<forall>i<2. \<forall>j<2. stack0 i \<noteq> Some (NextSlot 1 j)) \<and>
     read_slot s' (HeadSlot 0 0) = Some 1 \<and> read_slot s' (HeadSlot 0 1) = Some 1 \<and>
     read_slot s' (NextSlot 1 0) = None \<and>
     tail (ins_heads s' 0) 0 = Some 1 \<and> tail (ins_heads s' 0) 1 = Some 1 \<and>
     tail (ins_heads s' 0) 2 = None \<and> read_slot s' (HeadSlot 0 2) = None) \<and>
   (\<exists>s'. wt_insert_serial_func 0 stack_after5 next_after5 9 2 store_list = Inr s' \<and>
     (\<forall>i<2. \<forall>j<2. stack_after5 i \<noteq> Some (NextSlot 9 j)) \<and>
     read_slot s' (NextSlot 5 0) = Some 9 \<and> read_slot s' (NextSlot 9 0) = Some 7 \<and>
     tail (ins_heads s' 0) 0 = Some 7 \<and>
     read_slot s' (NextSlot 5 1) = Some 9 \<and> read_slot s' (NextSlot 9 1) = None \<and>
     tail (ins_heads s' 0) 1 = Some 9 \<and>
     tail (ins_heads s' 0) 2 = Some 5 \<and> read_slot s' (NextSlot 5 2) = None \<and>
     read_slot s' (HeadSlot 0 0) = Some 5 \<and> read_slot s' (NextSlot 7 0) = None)"
proof -
  have two: "\<And>i::nat. i < 2 \<longleftrightarrow> i = 0 \<or> i = 1" by auto
  have "\<not> write_gen_wrapped (page store0) \<and> (\<forall>i<2. level_ok store0 0 stack0 next0 i)"
    by (simp add: store0_def page0_def level_ok_def stack0_def next0_def read_slot_def)
  then obtain s' where r: "wt_insert_serial_func 0 stack0 next0 1 2 store0 = Inr s'"
    using insert_serial_ok_iff [of 0 stack0 next0 1 2 store0] by blast
  have fresh: "\<forall>i<2. \<forall>j<2. stack0 i \<noteq> Some (NextSlot 1 j)"
    by (simp add: stack0_def)
  from insert_publish_links [OF r fresh] have
    "(\<forall>i<2. \<exists>p. stack0 i = Some p \<and>
            read_slot s' p = Some 1 \<and>
            read_slot s' (NextSlot 1 i) = read_slot store0 p \<and>
            read_slot store0 p = next0 i \<and>
            tail (ins_heads s' 0) i =
              (if tail (ins_heads store0 0) i = None \<or>
                  (\<exists>t. tail (ins_heads store0 0) i = Some t \<and> p = NextSlot t i)
               then Some 1
               else tail (ins_heads store0 0) i))"
    and "(\<forall>i\<ge>2. tail (ins_heads s' 0) i = tail (ins_heads store0 0) i)"
    and "(\<forall>i<2. stack0 i \<noteq> Some (HeadSlot 0 2) \<and> HeadSlot 0 2 \<noteq> NextSlot 1 i) \<longrightarrow>
            read_slot s' (HeadSlot 0 2) = read_slot store0 (HeadSlot 0 2)"
    by blast+
  then have a: "\<exists>s'. wt_insert_serial_func 0 stack0 next0 1 2 store0 = Inr s' \<and>
     (\<forall>i<2. \<forall>j<2. stack0 i \<noteq> Some (NextSlot 1 j)) \<and>
     read_slot s' (HeadSlot 0 0) = Some 1 \<and> read_slot s' (HeadSlot 0 1) = Some 1 \<and>
     read_slot s' (NextSlot 1 0) = None \<and>
     tail (ins_heads s' 0) 0 = Some 1 \<and> tail (ins_heads s' 0) 1 = Some 1 \<and>
     tail (ins_heads s' 0) 2 = None \<and> read_slot s' (HeadSlot 0 2) = None"
    using r fresh
    by (simp add: two stack0_def next0_def store0_def read_slot_def)
  have "\<not> write_gen_wrapped (page store_list) \<and>
      (\<forall>i<2. level_ok store_list 0 stack_after5 next_after5 i)"
    by (simp add: two store_list_def store0_def page0_def level_ok_def stack_after5_def
        next_after5_def read_slot_def)
  then obtain sl where
    rl: "wt_insert_serial_func 0 stack_after5 next_after5 9 2 store_list = Inr sl"
    using insert_serial_ok_iff [of 0 stack_after5 next_after5 9 2 store_list] by blast
  have freshl: "\<forall>i<2. \<forall>j<2. stack_after5 i \<noteq> Some (NextSlot 9 j)"
    by (simp add: stack_after5_def)
  from insert_publish_links [OF rl freshl] have
    "(\<forall>i<2. \<exists>p. stack_after5 i = Some p \<and>
            read_slot sl p = Some 9 \<and>
            read_slot sl (NextSlot 9 i) = read_slot store_list p \<and>
            read_slot store_list p = next_after5 i \<and>
            tail (ins_heads sl 0) i =
              (if tail (ins_heads store_list 0) i = None \<or>
                  (\<exists>t. tail (ins_heads store_list 0) i = Some t \<and> p = NextSlot t i)
               then Some 9
               else tail (ins_heads store_list 0) i))"
    and "(\<forall>i\<ge>2. tail (ins_heads sl 0) i = tail (ins_heads store_list 0) i)"
    and "(\<forall>i<2. stack_after5 i \<noteq> Some (NextSlot 5 2) \<and> NextSlot 5 2 \<noteq> NextSlot 9 i) \<longrightarrow>
            read_slot sl (NextSlot 5 2) = read_slot store_list (NextSlot 5 2)"
    and "(\<forall>i<2. stack_after5 i \<noteq> Some (HeadSlot 0 0) \<and> HeadSlot 0 0 \<noteq> NextSlot 9 i) \<longrightarrow>
            read_slot sl (HeadSlot 0 0) = read_slot store_list (HeadSlot 0 0)"
    and "(\<forall>i<2. stack_after5 i \<noteq> Some (NextSlot 7 0) \<and> NextSlot 7 0 \<noteq> NextSlot 9 i) \<longrightarrow>
            read_slot sl (NextSlot 7 0) = read_slot store_list (NextSlot 7 0)"
    by blast+
  then have b: "\<exists>s'. wt_insert_serial_func 0 stack_after5 next_after5 9 2 store_list = Inr s' \<and>
     (\<forall>i<2. \<forall>j<2. stack_after5 i \<noteq> Some (NextSlot 9 j)) \<and>
     read_slot s' (NextSlot 5 0) = Some 9 \<and> read_slot s' (NextSlot 9 0) = Some 7 \<and>
     tail (ins_heads s' 0) 0 = Some 7 \<and>
     read_slot s' (NextSlot 5 1) = Some 9 \<and> read_slot s' (NextSlot 9 1) = None \<and>
     tail (ins_heads s' 0) 1 = Some 9 \<and>
     tail (ins_heads s' 0) 2 = Some 5 \<and> read_slot s' (NextSlot 5 2) = None \<and>
     read_slot s' (HeadSlot 0 0) = Some 5 \<and> read_slot s' (NextSlot 7 0) = None"
    using rl freshl
    by (simp add: two stack_after5_def next_after5_def store_list_def store0_def read_slot_def)
  from a b show ?thesis by (rule conjI)
qed


section \<open>Properties of version chains\<close>

lemma upd_chain_cong: "updates s = updates s' \<Longrightarrow> upd_chain s p xs = upd_chain s' p xs"
  by (induction xs arbitrary: p) auto

lemma upd_chain_unique: "upd_chain s p xs \<Longrightarrow> upd_chain s p ys \<Longrightarrow> xs = ys"
proof (induction xs arbitrary: p ys)
  case Nil
  then show ?case by (cases ys) auto
next
  case (Cons a as)
  then show ?case by (cases ys) auto
qed

lemma upd_chain_suffix: "upd_chain s p (xs @ a # ys) \<Longrightarrow> upd_chain s (Some a) (a # ys)"
  by (induction xs arbitrary: p) auto

lemma upd_chain_distinct: "upd_chain s p xs \<Longrightarrow> distinct xs"
proof (induction xs arbitrary: p)
  case Nil
  then show ?case by simp
next
  case (Cons a as)
  have "a \<notin> set as"
  proof
    assume "a \<in> set as"
    then obtain ys zs where as: "as = ys @ a # zs" by (auto simp: in_set_conv_decomp)
    from Cons.prems have "upd_chain s (upd_next (updates s a)) (ys @ a # zs)"
      by (simp add: as)
    then have "upd_chain s (Some a) (a # zs)" by (rule upd_chain_suffix)
    moreover from Cons.prems have "upd_chain s (Some a) (a # as)" by simp
    ultimately have "a # zs = a # as" by (rule upd_chain_unique)
    then show False by (simp add: as)
  qed
  moreover from Cons have "distinct as" by auto
  ultimately show ?case by simp
qed

lemma upd_chain_set_upd_next:
  "u \<notin> set xs \<Longrightarrow> upd_chain (set_upd_next u v s) p xs = upd_chain s p xs"
  by (induction xs arbitrary: p) (auto simp: set_upd_next_def)

lemma obsolete_check_chain:
  "upd_chain s p xs \<Longrightarrow>
   wt_update_obsolete_check va raced p s =
     Some (case find (\<lambda>u. va (txnid (updates s u))) xs of
             None \<Rightarrow> (None, s)
           | Some u \<Rightarrow>
               (case upd_next (updates s u) of
                  None \<Rightarrow> (None, s)
                | Some n \<Rightarrow> obsolete_truncate raced u n s))"
proof (induction xs arbitrary: p)
  case Nil
  then show ?case by (subst wt_update_obsolete_check.simps) simp
next
  case (Cons a as)
  then have p: "p = Some a" and rest: "upd_chain s (upd_next (updates s a)) as" by auto
  show ?case
    by (subst wt_update_obsolete_check.simps)
       (simp add: p Cons.IH[OF rest] split: option.splits)
qed

lemma obsolete_truncate_eq:
  "upd_next (updates s u) = Some n \<Longrightarrow>
   obsolete_truncate raced u n s = (if raced then None else Some n, set_upd_next u None s)"
  by (auto simp: obsolete_truncate_def cas_upd_next_def set_upd_next_def)

lemma upd_chain_split_at:
  "upd_chain s p (pre @ u # post) \<Longrightarrow> upd_next (updates s u) = Some n \<Longrightarrow>
   upd_chain (set_upd_next u None s) p (pre @ [u]) \<and>
   upd_chain (set_upd_next u None s) (Some n) post"
proof -
  assume ch: "upd_chain s p (pre @ u # post)" and n: "upd_next (updates s u) = Some n"
  have d: "distinct (pre @ u # post)" using ch by (rule upd_chain_distinct)
  have a: "upd_chain s (Some u) (u # post)" using ch by (rule upd_chain_suffix)
  then have post: "upd_chain s (Some n) post" using n by simp
  have "u \<notin> set post" using d by simp
  then have 2: "upd_chain (set_upd_next u None s) (Some n) post"
    using post by (simp add: upd_chain_set_upd_next)
  have "u \<notin> set pre" using d by simp
  then have 1: "upd_chain (set_upd_next u None s) p (pre @ [u])" using ch
  proof (induction pre arbitrary: p)
    case Nil
    then show ?case by (simp add: set_upd_next_def)
  next
    case (Cons b bs)
    then show ?case by (auto simp: set_upd_next_def)
  qed
  from 1 2 show ?thesis ..
qed

lemma find_split:
  "find P xs = Some u \<Longrightarrow> xs = takeWhile (\<lambda>x. \<not> P x) xs @ u # tl (dropWhile (\<lambda>x. \<not> P x) xs)"
  by (induction xs) (auto split: if_splits)

lemma store_chain_chain: "upd_chain store_chain (Some 1) [1, 2, 3, 4]"
  by (simp add: store_chain_def store0_def)

lemma store_chain_tail: "upd_chain store_chain (Some 3) [3, 4]"
  by (simp add: store_chain_def store0_def)

lemma upd_bytes_wt_free [simp]: "upd_bytes z (wt_free p s) u = upd_bytes z s u"
  by (simp add: upd_bytes_def wt_free_def split: option.splits)

lemma free_loop_chain:
  "upd_chain s p xs \<Longrightarrow>
   obsolete_free_loop z acc p s =
     Some (acc + sum_list (map (upd_bytes z s) xs), s\<lparr>trace := rev (map EvFree xs) @ trace s\<rparr>)"
proof (induction xs arbitrary: p acc s)
  case Nil
  then show ?case by (subst obsolete_free_loop.simps) simp
next
  case (Cons a as)
  then have p: "p = Some a" and rest: "upd_chain s (upd_next (updates s a)) as" by auto
  have u: "updates (wt_free (Some a) s) = updates s" by (simp add: wt_free_def)
  have rest': "upd_chain (wt_free (Some a) s) (upd_next (updates s a)) as"
    using rest upd_chain_cong[OF u] by simp
  have m: "map (upd_bytes z (wt_free (Some a) s)) as = map (upd_bytes z s) as" by simp
  show ?case
    apply (subst obsolete_free_loop.simps)
    apply (simp add: p Cons.IH[OF rest'] m del: upd_bytes_wt_free)
    apply (simp add: upd_bytes_def wt_free_def add.assoc)
    done
qed


lemma obsolete_check_frame:
  assumes "upd_chain s p xs"
  shows "\<exists>r s'. wt_update_obsolete_check va raced p s = Some (r, s') \<and>
           (s' = s \<or> (\<exists>U\<in>set xs. s' = set_upd_next U None s))"
proof (cases "find (\<lambda>u. va (txnid (updates s u))) xs")
  case None
  then show ?thesis using obsolete_check_chain[OF assms, of va raced] by simp
next
  case (Some U)
  then have U: "U \<in> set xs" by (auto simp: find_Some_iff)
  show ?thesis
  proof (cases "upd_next (updates s U)")
    case None
    then show ?thesis using Some obsolete_check_chain[OF assms, of va raced] by simp
  next
    case n: (Some n)
    then show ?thesis using Some U obsolete_check_chain[OF assms, of va raced]
      by (auto simp: obsolete_truncate_eq)
  qed
qed

lemma read_upd_slot_set_upd_next [simp]:
  "read_upd_slot (set_upd_next u v s) e = read_upd_slot s e"
  by (cases e) (simp_all add: read_upd_slot_def set_upd_next_def)

lemma read_upd_slot_write [simp]:
  "read_upd_slot (write_upd_slot e v s) e = v"
  by (cases e) (simp_all add: read_upd_slot_def write_upd_slot_def)

lemma read_upd_slot_modify_set [simp]:
  "read_upd_slot (wt_page_and_tree_modify_set s) e = read_upd_slot s e"
  by (cases e) (simp_all add: read_upd_slot_def wt_page_and_tree_modify_set_def)

lemma updates_write_upd_slot [simp]: "updates (write_upd_slot e v s) = updates s"
  by (cases e) (simp_all add: write_upd_slot_def)

lemma updates_modify_set [simp]: "updates (wt_page_and_tree_modify_set s) = updates s"
  by (simp add: wt_page_and_tree_modify_set_def)

lemma upd_next_set_upd_next [simp]:
  "upd_next (updates (set_upd_next u v s) w) = (if w = u then v else upd_next (updates s w))"
  by (simp add: set_upd_next_def)

text \<open>
  C3. On a version chain \<open>xs\<close> that starts at \<open>start\<close> and ends at \<open>NULL\<close>, the
  collector returns. It looks for the first update \<open>U\<close> whose transaction id satisfies
  \<open>visible_all\<close>. If there is none, or \<open>U\<close> has no successor, it returns absent and
  leaves the store as it is. Otherwise \<open>U->next\<close> ends up \<open>NULL\<close>; the collector
  returns absent if its compare-and-swap failed (another collector got there first) and
  the successor \<open>n\<close> of \<open>U\<close> if it succeeded. Afterwards the chain from \<open>start\<close>
  is the updates before \<open>U\<close> followed by \<open>U\<close> itself, and the updates after \<open>U\<close>
  are the detached list that starts at \<open>n\<close>.
\<close>

theorem obsolete_check_truncates:
  assumes ch: "upd_chain s start xs"
  shows "\<exists>r s'. wt_update_obsolete_check visible_all raced start s = Some (r, s') \<and>
     (case find (\<lambda>u. visible_all (txnid (updates s u))) xs of
        None \<Rightarrow> r = None \<and> s' = s
      | Some U \<Rightarrow>
          (case upd_next (updates s U) of
             None \<Rightarrow> r = None \<and> s' = s
           | Some n \<Rightarrow>
               r = (if raced then None else Some n) \<and>
               s' = set_upd_next U None s \<and>
               upd_chain s' start (takeWhile (\<lambda>u. \<not> visible_all (txnid (updates s u))) xs @ [U]) \<and>
               upd_chain s' (Some n) (tl (dropWhile (\<lambda>u. \<not> visible_all (txnid (updates s u))) xs))))"
proof (cases "find (\<lambda>u. visible_all (txnid (updates s u))) xs")
  case None
  then show ?thesis using obsolete_check_chain[OF ch, of visible_all raced] by simp
next
  case (Some U)
  show ?thesis
  proof (cases "upd_next (updates s U)")
    case None
    then show ?thesis using Some obsolete_check_chain[OF ch, of visible_all raced] by simp
  next
    case n: (Some n)
    let ?P = "\<lambda>u. visible_all (txnid (updates s u))"
    have xs: "xs = takeWhile (\<lambda>x. \<not> ?P x) xs @ U # tl (dropWhile (\<lambda>x. \<not> ?P x) xs)"
      using Some by (rule find_split)
    have "upd_chain s start (takeWhile (\<lambda>x. \<not> ?P x) xs @ U # tl (dropWhile (\<lambda>x. \<not> ?P x) xs))"
      using ch xs by simp
    from upd_chain_split_at[OF this n] show ?thesis
      using Some n obsolete_check_chain[OF ch, of visible_all raced]
      by (simp add: obsolete_truncate_eq)
  qed
qed

theorem obsolete_check_truncates_witness:
  "upd_chain store_chain (Some 1) [1, 2, 3, 4] \<and>
   (\<exists>s'. wt_update_obsolete_check (\<lambda>t. t \<le> 20) False (Some 1) store_chain = Some (Some 3, s') \<and>
      upd_chain s' (Some 1) [1, 2] \<and> upd_chain s' (Some 3) [3, 4]) \<and>
   (\<exists>s'. wt_update_obsolete_check (\<lambda>t. t \<le> 20) True (Some 1) store_chain = Some (None, s')) \<and>
   wt_update_obsolete_check (\<lambda>t. t \<le> 3) False (Some 1) store_chain = Some (None, store_chain) \<and>
   wt_update_obsolete_check (\<lambda>t. t \<le> 5) False (Some 1) store_chain = Some (None, store_chain)"
  using obsolete_check_truncates [OF store_chain_chain, of "\<lambda>t. t \<le> 20" False]
    obsolete_check_truncates [OF store_chain_chain, of "\<lambda>t. t \<le> 20" True]
    obsolete_check_truncates [OF store_chain_chain, of "\<lambda>t. t \<le> 3" False]
    obsolete_check_truncates [OF store_chain_chain, of "\<lambda>t. t \<le> 5" False]
    store_chain_chain
  by (simp add: store_chain_def store0_def)

text \<open>
  C2. On a page whose write generation has not wrapped: if the head of the chain
  \<open>*upd_entry\<close> differs from the head the writer saw (\<open>old_upd\<close>) and
  \<open>update_check\<close> on the current head reports an error, the step returns that error
  and the store is unchanged. If the head is the one the writer saw, or
  \<open>update_check\<close> on the current head passes, the step succeeds (for a chain that
  ends at \<open>NULL\<close> and does not contain the new update): afterwards \<open>*upd_entry\<close> is the
  new update and the new update's \<open>next\<close> is the head that was current when the step ran.
\<close>

theorem update_serial_publish:
  assumes nw: "\<not> write_gen_wrapped (page s)"
  shows "(read_upd_slot s upd_entry \<noteq> old_upd \<and>
          update_check s (read_upd_slot s upd_entry) = Some e \<longrightarrow>
            wt_update_serial_func update_check visible_all raced upd_entry old_upd upd s =
              Some (Some e, None, s)) \<and>
         ((read_upd_slot s upd_entry = old_upd \<or>
           update_check s (read_upd_slot s upd_entry) = None) \<and>
          upd_chain s (read_upd_slot s upd_entry) xs \<and> upd \<notin> set xs \<longrightarrow>
            (\<exists>obsolete s'.
               wt_update_serial_func update_check visible_all raced upd_entry old_upd upd s =
                 Some (None, obsolete, s') \<and>
               read_upd_slot s' upd_entry = Some upd \<and>
               upd_next (updates s' upd) = read_upd_slot s upd_entry))"
proof (intro conjI impI)
  assume "read_upd_slot s upd_entry \<noteq> old_upd \<and>
          update_check s (read_upd_slot s upd_entry) = Some e"
  then show "wt_update_serial_func update_check visible_all raced upd_entry old_upd upd s =
              Some (Some e, None, s)"
    using nw by (auto simp: wt_update_serial_func_def wt_page_write_gen_wrapped_check_def)
next
  let ?cur = "read_upd_slot s upd_entry"
  let ?s1 = "set_upd_next upd ?cur s"
  let ?s2 = "write_upd_slot upd_entry (Some upd) ?s1"
  assume a: "(?cur = old_upd \<or> update_check s ?cur = None) \<and>
          upd_chain s ?cur xs \<and> upd \<notin> set xs"
  then have chk: "(if old_upd \<noteq> ?cur then update_check s ?cur else None) = None" by auto
  have nx: "upd_next (updates ?s2 upd) = ?cur" by simp
  have "upd_chain ?s1 ?cur xs" using a by (simp add: upd_chain_set_upd_next)
  then have ch2: "upd_chain ?s2 ?cur xs"
    using upd_chain_cong[of ?s2 ?s1] by simp
  from obsolete_check_frame[OF ch2, of visible_all raced]
  obtain r s3 where r: "wt_update_obsolete_check visible_all raced ?cur ?s2 = Some (r, s3)"
    and s3: "s3 = ?s2 \<or> (\<exists>U\<in>set xs. s3 = set_upd_next U None ?s2)" by blast
  have res: "wt_update_serial_func update_check visible_all raced upd_entry old_upd upd s =
        Some (None, r, wt_page_and_tree_modify_set s3)"
    using nw chk r
    by (simp add: wt_update_serial_func_def wt_page_write_gen_wrapped_check_def Let_def nx)
  have slot: "read_upd_slot s3 upd_entry = Some upd" using s3 by auto
  have "upd_next (updates s3 upd) = ?cur" using s3 a by auto
  with res slot show "\<exists>obsolete s'.
               wt_update_serial_func update_check visible_all raced upd_entry old_upd upd s =
                 Some (None, obsolete, s') \<and>
               read_upd_slot s' upd_entry = Some upd \<and>
               upd_next (updates s' upd) = read_upd_slot s upd_entry"
    by simp
qed

theorem update_serial_publish_witness:
  "\<not> write_gen_wrapped (page store_chain) \<and>
   wt_update_serial_func (\<lambda>s h. Some WT_ROLLBACK) (\<lambda>t. t \<le> 20) False (RowUpdSlot 50 0) (Some 2) 9
     store_chain = Some (Some WT_ROLLBACK, None, store_chain) \<and>
   upd_chain store_chain (read_upd_slot store_chain (RowUpdSlot 50 0)) [1, 2, 3, 4] \<and>
   (\<exists>obsolete s'.
      wt_update_serial_func (\<lambda>s h. Some WT_ROLLBACK) (\<lambda>t. t \<le> 20) False (RowUpdSlot 50 0) (Some 1) 9
        store_chain = Some (None, obsolete, s') \<and>
      read_upd_slot s' (RowUpdSlot 50 0) = Some 9 \<and> upd_next (updates s' 9) = Some 1) \<and>
   (\<exists>obsolete s'.
      wt_update_serial_func (\<lambda>s h. None) (\<lambda>t. t \<le> 20) False (RowUpdSlot 50 0) (Some 2) 9
        store_chain = Some (None, obsolete, s') \<and>
      read_upd_slot s' (RowUpdSlot 50 0) = Some 9 \<and> upd_next (updates s' 9) = Some 1)"
proof -
  have nw: "\<not> write_gen_wrapped (page store_chain)"
    by (simp add: store_chain_def store0_def page0_def)
  have rd: "read_upd_slot store_chain (RowUpdSlot 50 0) = Some 1"
    by (simp add: read_upd_slot_def store_chain_def store0_def)
  show ?thesis
    using update_serial_publish [OF nw, of "RowUpdSlot 50 0" "Some 2" "\<lambda>s h. Some WT_ROLLBACK"
        WT_ROLLBACK "\<lambda>t. t \<le> 20" False 9 "[1, 2, 3, 4]"]
      update_serial_publish [OF nw, of "RowUpdSlot 50 0" "Some 1" "\<lambda>s h. Some WT_ROLLBACK"
        WT_ROLLBACK "\<lambda>t. t \<le> 20" False 9 "[1, 2, 3, 4]"]
      update_serial_publish [OF nw, of "RowUpdSlot 50 0" "Some 2" "\<lambda>s h. None"
        WT_ROLLBACK "\<lambda>t. t \<le> 20" False 9 "[1, 2, 3, 4]"]
      nw store_chain_chain
    by (simp add: rd)
qed

text \<open>
  What \<open>__wt_update_alloc\<close> reports as the size of an update is what freeing the
  update subtracts, for a value shorter than \<open>2^32\<close> bytes and for a tombstone.
\<close>

lemma update_alloc_bytes:
  assumes "wt_update_alloc sizeof_upd val s = (Inr (u, n), s')"
    and "case val of None \<Rightarrow> True | Some v \<Rightarrow> length v < 2 ^ 32"
  shows "upd_bytes sizeof_upd s' u = n"
proof (cases val)
  case None
  with assms(1) show ?thesis
    by (auto simp: wt_update_alloc_def upd_bytes_def split: prod.splits sum.splits)
next
  case (Some v)
  with assms(2) have len: "length v < 2 ^ 32" by simp
  have "unat (ucast (ucast (of_nat (length v) :: 64 word) :: 32 word) :: 64 word) =
        unat (of_nat (length v) :: 64 word)"
    using len
    by (simp add: unsigned_ucast_eq unsigned_take_bit_eq unsigned_of_nat take_bit_nat_eq_self)
  then have rt: "(ucast (ucast (of_nat (length v) :: 64 word) :: 32 word) :: 64 word) =
      of_nat (length v)"
    by (simp only: word_unat_eq_iff)
  from Some assms(1) obtain s1 where c: "wt_calloc s = (Inr u, s1)"
    and n: "n = sizeof_upd + of_nat (length v)"
    and s': "s' = s1\<lparr>updates := (updates s1)(u :=
        \<lparr>txnid = 0, upd_next = None, upd_deleted = False,
         u_size = ucast (of_nat (length v) :: 64 word), upd_data = v\<rparr>)\<rparr>"
    by (auto simp: wt_update_alloc_def Let_def split: prod.splits sum.splits)
  show ?thesis
    unfolding upd_bytes_def s' n using rt by simp
qed

text \<open>
  C7. Freeing a list \<open>xs\<close> of updates that ends at \<open>NULL\<close> returns, frees exactly the
  updates of the list, and decrements the page's in-memory byte accounting by the sum over
  the list of \<open>sizeof(WT_UPDATE)\<close> plus the update's size, where a deleted update
  (a tombstone) counts \<open>sizeof(WT_UPDATE)\<close> only. Sizes are \<open>size_t\<close> values.
\<close>

theorem obsolete_free_accounting:
  assumes ch: "upd_chain s upd xs"
  shows "\<exists>s'. wt_update_obsolete_free sizeof_upd upd s = Some s' \<and>
           memory_footprint (page s') =
             memory_footprint (page s) -
               (\<Sum>u\<leftarrow>xs. sizeof_upd +
                  (if upd_deleted (updates s u) then 0 else ucast (u_size (updates s u)))) \<and>
           trace s' = rev (map EvFree xs) @ trace s"
proof -
  have "(\<Sum>u\<leftarrow>xs. sizeof_upd +
           (if upd_deleted (updates s u) then 0 else ucast (u_size (updates s u)))) =
        sum_list (map (upd_bytes sizeof_upd s) xs)"
    by (simp add: upd_bytes_def [abs_def])
  then show ?thesis
    using free_loop_chain[OF ch, of sizeof_upd 0]
    by (simp add: wt_update_obsolete_free_def wt_cache_page_inmem_decr_def)
qed

theorem obsolete_free_accounting_witness:
  "upd_chain store_chain (Some 3) [3, 4] \<and>
   (\<exists>s'. wt_update_obsolete_free 24 (Some 3) store_chain = Some s' \<and>
      memory_footprint (page s') = 945 \<and>
      trace s' = [EvFree 4, EvFree 3])"
  using obsolete_free_accounting [OF store_chain_tail, of 24] store_chain_tail
  by (simp add: store_chain_def store0_def page0_def)


section \<open>Properties of the modify entry point\<close>

lemma wt_calloc_Inr:
  "wt_calloc s = (Inr a, s1) \<Longrightarrow>
   a = next_free s \<and> page s1 = page s \<and> trace s1 = EvAlloc a # trace s \<and>
   ins_arrays s1 = ins_arrays s \<and> upd_arrays s1 = upd_arrays s \<and>
   next_free s1 = Suc (next_free s)"
  by (auto simp: wt_calloc_def split: list.splits bool.splits)

lemma wt_calloc_Inl:
  "wt_calloc s = (Inl e, s1) \<Longrightarrow>
   page s1 = page s \<and> trace s1 = trace s \<and>
   ins_arrays s1 = ins_arrays s \<and> upd_arrays s1 = upd_arrays s \<and> next_free s1 = next_free s"
  by (auto simp: wt_calloc_def split: list.splits bool.splits)

lemma publish_once_steps:
  "(row_upd (page s) \<noteq> None \<longrightarrow> row_upd_array_alloc w s = (None, s)) \<and>
   (row_upd (page s) = None \<and> wt_calloc s = (Inr a, sc) \<and> w_race_upd w = None \<longrightarrow>
      (\<exists>s'. row_upd_array_alloc w s = (None, s') \<and> row_upd (page s') = Some a \<and>
         memory_footprint (page s') =
           memory_footprint (page s) + ucast (entries (page s)) * sizeof_ptr w \<and>
         trace s' = EvAlloc a # trace s)) \<and>
   (row_upd (page s) = None \<and> wt_calloc s = (Inr a, sc) \<and> w_race_upd w = Some b \<longrightarrow>
      (\<exists>s'. row_upd_array_alloc w s = (None, s') \<and> row_upd (page s') = Some b \<and>
         memory_footprint (page s') = memory_footprint (page s) \<and>
         trace s' = EvFree a # EvAlloc a # trace s)) \<and>
   (row_ins (page s) \<noteq> None \<longrightarrow> row_ins_array_alloc w s = (None, s)) \<and>
   (row_ins (page s) = None \<and> wt_calloc s = (Inr a, sc) \<and> w_race_ins w = None \<longrightarrow>
      (\<exists>s'. row_ins_array_alloc w s = (None, s') \<and> row_ins (page s') = Some a \<and>
         memory_footprint (page s') =
           memory_footprint (page s) + ucast (entries (page s) + 1) * sizeof_ptr w \<and>
         trace s' = EvAlloc a # trace s)) \<and>
   (row_ins (page s) = None \<and> wt_calloc s = (Inr a, sc) \<and> w_race_ins w = Some b \<longrightarrow>
      (\<exists>s'. row_ins_array_alloc w s = (None, s') \<and> row_ins (page s') = Some b \<and>
         memory_footprint (page s') = memory_footprint (page s) \<and>
         trace s' = EvFree a # EvAlloc a # trace s)) \<and>
   (ins_arrays s arr i = Some h \<longrightarrow> row_ins_head_alloc w arr i cbt s = (Inr (Some h), cbt, s)) \<and>
   (ins_arrays s arr i = None \<and> wt_calloc s = (Inr a, sc) \<and> w_race_head w = None \<longrightarrow>
      (\<exists>cbt' s'. row_ins_head_alloc w arr i cbt s = (Inr (Some a), cbt', s') \<and>
         ins_arrays s' arr i = Some a \<and>
         memory_footprint (page s') = memory_footprint (page s) + sizeof_WT_INSERT_HEAD w \<and>
         trace s' = EvAlloc a # trace s)) \<and>
   (ins_arrays s arr i = None \<and> wt_calloc s = (Inr a, sc) \<and> w_race_head w = Some b \<longrightarrow>
      (\<exists>s'. row_ins_head_alloc w arr i cbt s = (Inr (Some b), cbt, s') \<and>
         ins_arrays s' arr i = Some b \<and>
         memory_footprint (page s') = memory_footprint (page s) \<and>
         trace s' = EvFree a # EvAlloc a # trace s))"
proof (intro conjI impI)
  assume "row_upd (page s) \<noteq> None"
  then show "row_upd_array_alloc w s = (None, s)" by (auto simp: row_upd_array_alloc_def)
next
  assume a: "row_upd (page s) = None \<and> wt_calloc s = (Inr a, sc) \<and> w_race_upd w = None"
  then show "\<exists>s'. row_upd_array_alloc w s = (None, s') \<and> row_upd (page s') = Some a \<and>
         memory_footprint (page s') =
           memory_footprint (page s) + ucast (entries (page s)) * sizeof_ptr w \<and>
         trace s' = EvAlloc a # trace s"
    using wt_calloc_Inr[of s a sc]
    by (simp add: row_upd_array_alloc_def cas_row_upd_def race_row_upd_def
        wt_cache_page_inmem_incr_def)
next
  assume a: "row_upd (page s) = None \<and> wt_calloc s = (Inr a, sc) \<and> w_race_upd w = Some b"
  then show "\<exists>s'. row_upd_array_alloc w s = (None, s') \<and> row_upd (page s') = Some b \<and>
         memory_footprint (page s') = memory_footprint (page s) \<and>
         trace s' = EvFree a # EvAlloc a # trace s"
    using wt_calloc_Inr[of s a sc]
    by (simp add: row_upd_array_alloc_def cas_row_upd_def race_row_upd_def wt_free_def)
next
  assume "row_ins (page s) \<noteq> None"
  then show "row_ins_array_alloc w s = (None, s)" by (auto simp: row_ins_array_alloc_def)
next
  assume a: "row_ins (page s) = None \<and> wt_calloc s = (Inr a, sc) \<and> w_race_ins w = None"
  then show "\<exists>s'. row_ins_array_alloc w s = (None, s') \<and> row_ins (page s') = Some a \<and>
         memory_footprint (page s') =
           memory_footprint (page s) + ucast (entries (page s) + 1) * sizeof_ptr w \<and>
         trace s' = EvAlloc a # trace s"
    using wt_calloc_Inr[of s a sc]
    by (simp add: row_ins_array_alloc_def cas_row_ins_def race_row_ins_def
        wt_cache_page_inmem_incr_def)
next
  assume a: "row_ins (page s) = None \<and> wt_calloc s = (Inr a, sc) \<and> w_race_ins w = Some b"
  then show "\<exists>s'. row_ins_array_alloc w s = (None, s') \<and> row_ins (page s') = Some b \<and>
         memory_footprint (page s') = memory_footprint (page s) \<and>
         trace s' = EvFree a # EvAlloc a # trace s"
    using wt_calloc_Inr[of s a sc]
    by (simp add: row_ins_array_alloc_def cas_row_ins_def race_row_ins_def wt_free_def)
next
  assume "ins_arrays s arr i = Some h"
  then show "row_ins_head_alloc w arr i cbt s = (Inr (Some h), cbt, s)"
    by (simp add: row_ins_head_alloc_def)
next
  assume a: "ins_arrays s arr i = None \<and> wt_calloc s = (Inr a, sc) \<and> w_race_head w = None"
  then show "\<exists>cbt' s'. row_ins_head_alloc w arr i cbt s = (Inr (Some a), cbt', s') \<and>
         ins_arrays s' arr i = Some a \<and>
         memory_footprint (page s') = memory_footprint (page s) + sizeof_WT_INSERT_HEAD w \<and>
         trace s' = EvAlloc a # trace s"
    using wt_calloc_Inr[of s a sc]
    by (simp add: row_ins_head_alloc_def cas_ins_head_def race_ins_head_def
        wt_cache_page_inmem_incr_def Let_def)
next
  assume a: "ins_arrays s arr i = None \<and> wt_calloc s = (Inr a, sc) \<and> w_race_head w = Some b"
  then show "\<exists>s'. row_ins_head_alloc w arr i cbt s = (Inr (Some b), cbt, s') \<and>
         ins_arrays s' arr i = Some b \<and>
         memory_footprint (page s') = memory_footprint (page s) \<and>
         trace s' = EvFree a # EvAlloc a # trace s"
    using wt_calloc_Inr[of s a sc]
    by (simp add: row_ins_head_alloc_def cas_ins_head_def race_ins_head_def wt_free_def Let_def)
qed















lemma trace_write_upd_slot [simp]: "trace (write_upd_slot en v s) = trace s"
  by (cases en) (simp_all add: write_upd_slot_def)




lemma same_ptrs_refl [simp]: "same_ptrs s s"
  by (simp add: same_ptrs_def)

lemma same_ptrs_trans: "same_ptrs s s1 \<Longrightarrow> same_ptrs s1 s2 \<Longrightarrow> same_ptrs s s2"
  by (simp add: same_ptrs_def)

lemma same_ptrs_write_slot [simp]: "same_ptrs s (write_slot p v s)"
  by (cases p) (simp_all add: same_ptrs_def write_slot_def)

lemma same_ptrs_set_tail [simp]: "same_ptrs s (set_tail h i v s)"
  by (simp add: same_ptrs_def set_tail_def)

lemma same_ptrs_set_upd_next [simp]: "same_ptrs s (set_upd_next u v s)"
  by (simp add: same_ptrs_def set_upd_next_def)

lemma same_ptrs_write_upd_slot [simp]: "same_ptrs s (write_upd_slot e v s)"
  by (cases e) (simp_all add: same_ptrs_def write_upd_slot_def)

lemma same_ptrs_wt_free [simp]: "same_ptrs s (wt_free p s)"
  by (simp add: same_ptrs_def wt_free_def split: option.splits)

lemma same_ptrs_incr [simp]: "same_ptrs s (wt_cache_page_inmem_incr n s)"
  by (simp add: same_ptrs_def wt_cache_page_inmem_incr_def)

lemma same_ptrs_decr [simp]: "same_ptrs s (wt_cache_page_inmem_decr n s)"
  by (simp add: same_ptrs_def wt_cache_page_inmem_decr_def)

lemma same_ptrs_modify_set [simp]: "same_ptrs s (wt_page_and_tree_modify_set s)"
  by (simp add: same_ptrs_def wt_page_and_tree_modify_set_def)

lemma same_ptrs_unmodify [simp]: "same_ptrs s (wt_txn_unmodify s)"
  by (simp add: same_ptrs_def wt_txn_unmodify_def)

lemma same_ptrs_err [simp]: "same_ptrs s (row_modify_err l i u s)"
  by (simp add: same_ptrs_def row_modify_err_def wt_free_def wt_txn_unmodify_def
      split: option.splits)

lemma same_ptrs_insert_set_next: "same_ptrs s (insert_set_next new st d i s)"
proof (induction new st d i s rule: insert_set_next.induct)
  case (1 new st d i s)
  show ?case
  proof (cases "i < d")
    case False
    then show ?thesis by (subst insert_set_next.simps) simp
  next
    case True
    have "same_ptrs s (case st i of None \<Rightarrow> s | Some p \<Rightarrow> write_slot (NextSlot new i) (read_slot s p) s)"
      by (simp split: option.splits)
    from same_ptrs_trans[OF this "1.IH"[OF True]] True show ?thesis
      by (subst insert_set_next.simps) simp
  qed
qed

lemma same_ptrs_link_level: "same_ptrs s (insert_link_level h new st i s)"
proof -
  let ?s1 = "if is_new_tail s h st i then set_tail h i (Some new) s else s"
  have a: "same_ptrs s ?s1" by simp
  show ?thesis
  proof (cases "st i")
    case None
    then show ?thesis using a by (simp add: insert_link_level_def Let_def)
  next
    case (Some p)
    have "same_ptrs ?s1 (write_slot p (Some new) ?s1)" by (rule same_ptrs_write_slot)
    with a have "same_ptrs s (write_slot p (Some new) ?s1)" by (rule same_ptrs_trans)
    then show ?thesis using Some by (simp add: insert_link_level_def Let_def)
  qed
qed

lemma same_ptrs_insert_link: "same_ptrs s (insert_link h new st d i s)"
proof (induction h new st d i s rule: insert_link.induct)
  case (1 h new st d i s)
  show ?case
  proof (cases "i < d")
    case False
    then show ?thesis by (subst insert_link.simps) simp
  next
    case True
    from same_ptrs_trans[OF same_ptrs_link_level "1.IH"[OF True]] True show ?thesis
      by (subst insert_link.simps) simp
  qed
qed

lemma same_ptrs_insert_serial_func:
  assumes "wt_insert_serial_func h st nx new d s = Inr s'"
  shows "same_ptrs s s'"
proof -
  let ?s1 = "insert_set_next new st d 0 s"
  let ?s2 = "insert_link h new st d 0 ?s1"
  have s': "s' = wt_page_and_tree_modify_set ?s2"
    using assms by (auto simp: wt_insert_serial_func_def split: option.splits)
  have "same_ptrs s ?s2"
    by (rule same_ptrs_trans[OF same_ptrs_insert_set_next same_ptrs_insert_link])
  then show ?thesis unfolding s' by (rule same_ptrs_trans) (rule same_ptrs_modify_set)
qed

lemma same_ptrs_insert_serial:
  assumes "wt_insert_serial w h st nx new n d s = (r, i', s')"
  shows "same_ptrs s s'"
proof (cases "wt_insert_serial_func h st nx new d s")
  case (Inl e)
  with assms have "s' = s \<or> s' = wt_free (Some new) s"
    by (auto simp: wt_insert_serial_def split: if_splits)
  then show ?thesis by auto
next
  case (Inr s1)
  then have "same_ptrs s s1" by (rule same_ptrs_insert_serial_func)
  moreover have "s' = wt_cache_page_inmem_incr n s1"
    using assms Inr by (simp add: wt_insert_serial_def)
  ultimately show ?thesis using same_ptrs_trans[OF _ same_ptrs_incr] by simp
qed

lemma same_ptrs_obsolete_truncate: "obsolete_truncate rc u n s = (r, s') \<Longrightarrow> same_ptrs s s'"
  by (auto simp: obsolete_truncate_def cas_upd_next_def same_ptrs_def set_upd_next_def
      split: if_splits)

lemma same_ptrs_obsolete_check:
  assumes a: "wt_update_obsolete_check va rc p s = Some y"
  shows "same_ptrs s (snd y)"
proof (rule wt_update_obsolete_check.raw_induct
    [where P = "\<lambda>va rc p s y. same_ptrs s (snd y)", OF _ a])
  fix f :: "(64 word \<Rightarrow> bool) \<Rightarrow> bool \<Rightarrow> addr option \<Rightarrow> store \<Rightarrow> (addr option \<times> store) option"
  fix va rc p s y
  assume IH: "\<And>va rc p s y. f va rc p s = Some y \<Longrightarrow> same_ptrs s (snd y)"
  assume eq: "(case p of None \<Rightarrow> Some (None, s)
      | Some u \<Rightarrow>
          if va (txnid (updates s u))
          then case upd_next (updates s u) of None \<Rightarrow> Some (None, s)
               | Some n \<Rightarrow> Some (obsolete_truncate rc u n s)
          else f va rc (upd_next (updates s u)) s) = Some y"
  show "same_ptrs s (snd y)"
  proof (cases p)
    case None
    with eq show ?thesis by auto
  next
    case (Some u)
    show ?thesis
    proof (cases "va (txnid (updates s u))")
      case True
      with eq Some show ?thesis
        using same_ptrs_obsolete_truncate[OF surjective_pairing]
        by (auto split: option.splits)
    next
      case False
      with eq Some have "f va rc (upd_next (updates s u)) s = Some y" by simp
      then show ?thesis by (rule IH)
    qed
  qed
qed

lemma same_ptrs_free_loop:
  assumes a: "obsolete_free_loop z acc p s = Some y"
  shows "same_ptrs s (snd y)"
proof (rule obsolete_free_loop.raw_induct
    [where P = "\<lambda>z acc p s y. same_ptrs s (snd y)", OF _ a])
  fix f :: "64 word \<Rightarrow> 64 word \<Rightarrow> addr option \<Rightarrow> store \<Rightarrow> (64 word \<times> store) option"
  fix z acc p s y
  assume IH: "\<And>z acc p s y. f z acc p s = Some y \<Longrightarrow> same_ptrs s (snd y)"
  assume eq: "(case p of None \<Rightarrow> Some (acc, s)
      | Some u \<Rightarrow>
          f z (acc + (z + (if upd_deleted (updates s u) then 0
              else ucast (u_size (updates s u)))))
           (upd_next (updates s u)) (wt_free (Some u) s)) = Some y"
  show "same_ptrs s (snd y)"
  proof (cases p)
    case None
    with eq show ?thesis by auto
  next
    case (Some u)
    with eq have "same_ptrs (wt_free (Some u) s) (snd y)"
      by (auto dest: IH)
    then show ?thesis by (rule same_ptrs_trans[OF same_ptrs_wt_free])
  qed
qed

lemma same_ptrs_obsolete_free:
  assumes "wt_update_obsolete_free z p s = Some s'"
  shows "same_ptrs s s'"
proof -
  from assms obtain sz s1 where l: "obsolete_free_loop z 0 p s = Some (sz, s1)"
    and s': "s' = (if sz \<noteq> 0 then wt_cache_page_inmem_decr sz s1 else s1)"
    by (auto simp: wt_update_obsolete_free_def split: option.splits prod.splits)
  from same_ptrs_free_loop[OF l] have "same_ptrs s s1" by simp
  then show ?thesis unfolding s' using same_ptrs_trans[OF _ same_ptrs_decr] by simp
qed

lemma same_ptrs_update_serial_func:
  assumes "wt_update_serial_func uc va rc en old u s = Some (r, ob, s')"
  shows "same_ptrs s s'"
proof (cases r)
  case (Some e)
  with assms have "s' = s"
    by (auto simp: wt_update_serial_func_def Let_def split: option.splits if_splits prod.splits)
  then show ?thesis by simp
next
  case None
  let ?s1 = "set_upd_next u (read_upd_slot s en) s"
  let ?s2 = "write_upd_slot en (Some u) ?s1"
  from assms None obtain s3 where
    oc: "wt_update_obsolete_check va rc (upd_next (updates ?s2 u)) ?s2 = Some (ob, s3)"
    and s': "s' = wt_page_and_tree_modify_set s3"
    by (auto simp: wt_update_serial_func_def Let_def split: option.splits if_splits prod.splits)
  have "same_ptrs s ?s2"
    by (rule same_ptrs_trans[OF same_ptrs_set_upd_next same_ptrs_write_upd_slot])
  moreover from same_ptrs_obsolete_check[OF oc] have "same_ptrs ?s2 s3" by simp
  ultimately have "same_ptrs s s3" by (rule same_ptrs_trans)
  then show ?thesis unfolding s' by (rule same_ptrs_trans) (rule same_ptrs_modify_set)
qed

lemma same_ptrs_update_serial:
  assumes "wt_update_serial w en old u n s = Some (r, u', ob, s')"
  shows "same_ptrs s s'"
proof -
  from assms obtain r1 ob1 s1 where
    f: "wt_update_serial_func (w_update_check w) (w_visible_all w) (w_race_prune w) en old u s =
          Some (r1, ob1, s1)"
    and s': "s' = s1 \<or> s' = wt_free (Some u) s1 \<or> s' = wt_cache_page_inmem_incr n s1"
    by (auto simp: wt_update_serial_def split: option.splits prod.splits if_splits)
  from same_ptrs_update_serial_func[OF f] s' show ?thesis
    using same_ptrs_trans[OF _ same_ptrs_incr] same_ptrs_trans[OF _ same_ptrs_wt_free] by auto
qed

lemma same_ptrs_txn_modify: "wt_txn_modify w u s = (r, s') \<Longrightarrow> same_ptrs s s'"
  by (auto simp: wt_txn_modify_def same_ptrs_def split: sum.splits)


lemma ptrs_kept_refl [simp]: "ptrs_kept s s"
  by (simp add: ptrs_kept_def)

lemma ptrs_kept_trans: "ptrs_kept s s1 \<Longrightarrow> ptrs_kept s1 s2 \<Longrightarrow> ptrs_kept s s2"
  unfolding ptrs_kept_def by (meson le_trans less_le_trans)

lemma same_ptrs_kept: "same_ptrs s s' \<Longrightarrow> ptrs_kept s s'"
  by (simp add: same_ptrs_def ptrs_kept_def)

lemma same_ptrs_calloc: "wt_calloc s = (r, s1) \<Longrightarrow> same_ptrs s s1"
  by (auto simp: wt_calloc_def same_ptrs_def split: list.splits bool.splits)

lemma same_ptrs_update_alloc: "wt_update_alloc z v s = (r, s1) \<Longrightarrow> same_ptrs s s1"
  by (auto simp: wt_update_alloc_def Let_def same_ptrs_def
      dest!: same_ptrs_calloc split: prod.splits sum.splits)

lemma same_ptrs_insert_alloc: "wt_row_insert_alloc w k d s = (r, s1) \<Longrightarrow> same_ptrs s s1"
  by (auto simp: wt_row_insert_alloc_def Let_def same_ptrs_def
      dest!: same_ptrs_calloc split: prod.splits sum.splits)

lemma ptrs_kept_upd_array: "row_upd_array_alloc w s = (r, s1) \<Longrightarrow> ptrs_kept s s1"
  by (auto simp: row_upd_array_alloc_def cas_row_upd_def race_row_upd_def wt_free_def
      wt_cache_page_inmem_incr_def ptrs_kept_def same_ptrs_def
      dest!: same_ptrs_calloc split: if_splits prod.splits sum.splits option.splits)

lemma ptrs_kept_ins_array: "row_ins_array_alloc w s = (r, s1) \<Longrightarrow> ptrs_kept s s1"
  by (auto simp: row_ins_array_alloc_def cas_row_ins_def race_row_ins_def wt_free_def
      wt_cache_page_inmem_incr_def ptrs_kept_def
      dest!: wt_calloc_Inr wt_calloc_Inl split: if_splits prod.splits sum.splits option.splits)

lemma ptrs_kept_ins_head: "row_ins_head_alloc w arr i cbt s = (r, cbt1, s1) \<Longrightarrow> ptrs_kept s s1"
  by (auto simp: row_ins_head_alloc_def cas_ins_head_def race_ins_head_def wt_free_def
      wt_cache_page_inmem_incr_def ptrs_kept_def Let_def
      dest!: wt_calloc_Inr wt_calloc_Inl split: if_splits prod.splits sum.splits option.splits)

lemma ptrs_kept_upd_entry: "row_upd_entry w cbt s = Some (r, s1) \<Longrightarrow> ptrs_kept s s1"
  by (auto simp: row_upd_entry_def dest: ptrs_kept_upd_array split: option.splits prod.splits)


lemma ptrs_kept_err: "ptrs_kept s (row_modify_err l i u s)"
  by (rule same_ptrs_kept) simp

lemma ptrs_kept_write_upd_slot: "ptrs_kept s (write_upd_slot e v s)"
  by (rule same_ptrs_kept) simp

lemma ptrs_kept_insert_serial_upd:
  "wt_insert_serial w h st nx new n d (write_upd_slot e v s) = (r, i', s') \<Longrightarrow> ptrs_kept s s'"
  by (rule ptrs_kept_trans[OF ptrs_kept_write_upd_slot])
     (rule same_ptrs_kept, erule same_ptrs_insert_serial)

lemmas kept_steps =
  ptrs_kept_upd_entry ptrs_kept_ins_array ptrs_kept_ins_head
  same_ptrs_update_alloc [THEN same_ptrs_kept] same_ptrs_insert_alloc [THEN same_ptrs_kept]
  same_ptrs_txn_modify [THEN same_ptrs_kept] same_ptrs_update_serial [THEN same_ptrs_kept]
  ptrs_kept_insert_serial_upd same_ptrs_obsolete_free [THEN same_ptrs_kept]

lemma ptrs_kept_update:
  "row_modify_update w cbt val s = Some (r, cbt', s') \<Longrightarrow> ptrs_kept s s'"
  apply (simp add: row_modify_update_def split: option.splits prod.splits sum.splits)
  apply (clarsimp, (drule kept_steps)+,
      ((rule ptrs_kept_trans, assumption)+)?, (rule ptrs_kept_err | assumption | rule ptrs_kept_refl))+
  done

lemma ptrs_kept_insert:
  "row_modify_insert w cbt val s = Some (r, cbt', s') \<Longrightarrow> ptrs_kept s s'"
  apply (simp add: row_modify_insert_def split: option.splits prod.splits sum.splits)
  apply (clarsimp, (drule kept_steps)+,
      ((rule ptrs_kept_trans, assumption)+)?, (rule ptrs_kept_err | assumption | rule ptrs_kept_refl))+
  done

lemma ptrs_kept_row_modify:
  "wt_row_modify w cbt is_remove s = Some (r, cbt', s') \<Longrightarrow> ptrs_kept s s'"
  by (auto simp: wt_row_modify_def dest: ptrs_kept_update ptrs_kept_insert split: if_splits)

text \<open>
  C5. During \<open>__wt_row_modify\<close> a pointer that is published is never replaced: the
  update array and the insert array of the page keep their address, and so does every
  skip-list head of an allocated insert array. Each of the three is published by one
  compare-and-swap from \<open>NULL\<close>. Where the pointer is already set, nothing is allocated
  and the store is unchanged. Where it is \<open>NULL\<close> and the allocation succeeds with
  address \<open>a\<close>: if no other thread has published in the meantime, the pointer becomes
  \<open>a\<close>, the page's in-memory byte accounting grows by the size of the array (\<open>entries\<close>
  or \<open>entries + 1\<close> pointers) or of the head, and nothing is freed; if another thread
  has published \<open>b\<close>, the pointer stays \<open>b\<close>, \<open>a\<close> is freed and the accounting is
  unchanged.
\<close>

theorem publish_once:
  "(wt_row_modify w cbt is_remove s = Some (ret, cbtr, sr) \<longrightarrow>
      (\<forall>p. row_upd (page s) = Some p \<longrightarrow> row_upd (page sr) = Some p) \<and>
      (\<forall>p. row_ins (page s) = Some p \<longrightarrow> row_ins (page sr) = Some p) \<and>
      (\<forall>arr0 j h0. arr0 < next_free s \<and> ins_arrays s arr0 j = Some h0 \<longrightarrow>
         ins_arrays sr arr0 j = Some h0)) \<and>
   (row_upd (page s) \<noteq> None \<longrightarrow> row_upd_array_alloc w s = (None, s)) \<and>
   (row_upd (page s) = None \<and> wt_calloc s = (Inr a, sc) \<and> w_race_upd w = None \<longrightarrow>
      (\<exists>s'. row_upd_array_alloc w s = (None, s') \<and> row_upd (page s') = Some a \<and>
         memory_footprint (page s') =
           memory_footprint (page s) + ucast (entries (page s)) * sizeof_ptr w \<and>
         trace s' = EvAlloc a # trace s)) \<and>
   (row_upd (page s) = None \<and> wt_calloc s = (Inr a, sc) \<and> w_race_upd w = Some b \<longrightarrow>
      (\<exists>s'. row_upd_array_alloc w s = (None, s') \<and> row_upd (page s') = Some b \<and>
         memory_footprint (page s') = memory_footprint (page s) \<and>
         trace s' = EvFree a # EvAlloc a # trace s)) \<and>
   (row_ins (page s) \<noteq> None \<longrightarrow> row_ins_array_alloc w s = (None, s)) \<and>
   (row_ins (page s) = None \<and> wt_calloc s = (Inr a, sc) \<and> w_race_ins w = None \<longrightarrow>
      (\<exists>s'. row_ins_array_alloc w s = (None, s') \<and> row_ins (page s') = Some a \<and>
         memory_footprint (page s') =
           memory_footprint (page s) + ucast (entries (page s) + 1) * sizeof_ptr w \<and>
         trace s' = EvAlloc a # trace s)) \<and>
   (row_ins (page s) = None \<and> wt_calloc s = (Inr a, sc) \<and> w_race_ins w = Some b \<longrightarrow>
      (\<exists>s'. row_ins_array_alloc w s = (None, s') \<and> row_ins (page s') = Some b \<and>
         memory_footprint (page s') = memory_footprint (page s) \<and>
         trace s' = EvFree a # EvAlloc a # trace s)) \<and>
   (ins_arrays s arr i = Some h \<longrightarrow> row_ins_head_alloc w arr i cbt s = (Inr (Some h), cbt, s)) \<and>
   (ins_arrays s arr i = None \<and> wt_calloc s = (Inr a, sc) \<and> w_race_head w = None \<longrightarrow>
      (\<exists>cbt' s'. row_ins_head_alloc w arr i cbt s = (Inr (Some a), cbt', s') \<and>
         ins_arrays s' arr i = Some a \<and>
         memory_footprint (page s') = memory_footprint (page s) + sizeof_WT_INSERT_HEAD w \<and>
         trace s' = EvAlloc a # trace s)) \<and>
   (ins_arrays s arr i = None \<and> wt_calloc s = (Inr a, sc) \<and> w_race_head w = Some b \<longrightarrow>
      (\<exists>s'. row_ins_head_alloc w arr i cbt s = (Inr (Some b), cbt, s') \<and>
         ins_arrays s' arr i = Some b \<and>
         memory_footprint (page s') = memory_footprint (page s) \<and>
         trace s' = EvFree a # EvAlloc a # trace s))"
proof (rule conjI)
  show "wt_row_modify w cbt is_remove s = Some (ret, cbtr, sr) \<longrightarrow>
      (\<forall>p. row_upd (page s) = Some p \<longrightarrow> row_upd (page sr) = Some p) \<and>
      (\<forall>p. row_ins (page s) = Some p \<longrightarrow> row_ins (page sr) = Some p) \<and>
      (\<forall>arr0 j h0. arr0 < next_free s \<and> ins_arrays s arr0 j = Some h0 \<longrightarrow>
         ins_arrays sr arr0 j = Some h0)"
  proof
    assume "wt_row_modify w cbt is_remove s = Some (ret, cbtr, sr)"
    then have "ptrs_kept s sr" by (rule ptrs_kept_row_modify)
    then show "(\<forall>p. row_upd (page s) = Some p \<longrightarrow> row_upd (page sr) = Some p) \<and>
      (\<forall>p. row_ins (page s) = Some p \<longrightarrow> row_ins (page sr) = Some p) \<and>
      (\<forall>arr0 j h0. arr0 < next_free s \<and> ins_arrays s arr0 j = Some h0 \<longrightarrow>
         ins_arrays sr arr0 j = Some h0)"
      by (simp add: ptrs_kept_def)
  qed
qed (rule publish_once_steps)

theorem publish_once_witness:
  "wt_calloc store0 = (Inr 100, store0\<lparr>next_free := 101, trace := [EvAlloc 100]\<rparr>) \<and>
   (\<exists>s'. row_upd_array_alloc w0 store0 = (None, s') \<and> row_upd (page s') = Some 100 \<and>
      memory_footprint (page s') = 16 \<and> trace s' = [EvAlloc 100]) \<and>
   (\<exists>s'. row_upd_array_alloc (w0\<lparr>w_race_upd := Some 7\<rparr>) store0 = (None, s') \<and>
      row_upd (page s') = Some 7 \<and> memory_footprint (page s') = 0 \<and>
      trace s' = [EvFree 100, EvAlloc 100]) \<and>
   row_upd_array_alloc w0 store_chain = (None, store_chain) \<and>
   (\<exists>cbt' s'. row_ins_head_alloc w0 60 2 cbt0 store0 = (Inr (Some 100), cbt', s') \<and>
      ins_arrays s' 60 2 = Some 100 \<and> memory_footprint (page s') = 160 \<and>
      trace s' = [EvAlloc 100]) \<and>
   (\<exists>s'. row_ins_head_alloc (w0\<lparr>w_race_head := Some 7\<rparr>) 60 2 cbt0 store0 =
        (Inr (Some 7), cbt0, s') \<and>
      ins_arrays s' 60 2 = Some 7 \<and> memory_footprint (page s') = 0 \<and>
      trace s' = [EvFree 100, EvAlloc 100])"
proof -
  let ?sc = "store0\<lparr>next_free := 101, trace := [EvAlloc 100]\<rparr>"
  have c: "wt_calloc store0 = (Inr 100, ?sc)"
    by (simp add: wt_calloc_def store0_def)
  have p: "row_upd (page store0) = None" "row_ins (page store0) = None"
    "ins_arrays store0 60 2 = None" "memory_footprint (page store0) = 0"
    "entries (page store0) = 2" "trace store0 = []"
    by (simp_all add: store0_def page0_def)
  have q: "row_upd (page store_chain) \<noteq> None" by (simp add: store_chain_def)
  have w: "w_race_upd w0 = None" "w_race_ins w0 = None" "w_race_head w0 = None"
    "sizeof_ptr w0 = 8" "sizeof_WT_INSERT_HEAD w0 = 160"
    by (simp_all add: w0_def)
  have 1: "\<exists>s'. row_upd_array_alloc w0 store0 = (None, s') \<and> row_upd (page s') = Some 100 \<and>
      memory_footprint (page s') = 16 \<and> trace s' = [EvAlloc 100]"
    using publish_once [where s = store0 and w = w0 and a = 100 and sc = ?sc] c
    by (simp add: p w)
  have 2: "\<exists>s'. row_upd_array_alloc (w0\<lparr>w_race_upd := Some 7\<rparr>) store0 = (None, s') \<and>
      row_upd (page s') = Some 7 \<and> memory_footprint (page s') = 0 \<and>
      trace s' = [EvFree 100, EvAlloc 100]"
    using publish_once [where s = store0 and w = "w0\<lparr>w_race_upd := Some 7\<rparr>" and a = 100
        and b = 7 and sc = ?sc] c
    by (simp add: p)
  have 3: "row_upd_array_alloc w0 store_chain = (None, store_chain)"
    using publish_once [where s = store_chain and w = w0] q by blast
  have 4: "\<exists>cbt' s'. row_ins_head_alloc w0 60 2 cbt0 store0 = (Inr (Some 100), cbt', s') \<and>
      ins_arrays s' 60 2 = Some 100 \<and> memory_footprint (page s') = 160 \<and>
      trace s' = [EvAlloc 100]"
    using publish_once [where s = store0 and w = w0 and a = 100 and sc = ?sc
        and arr = 60 and i = 2 and cbt = cbt0
        and h = 0 and is_remove = False and ret = None and cbtr = cbt0 and sr = store0] c
    by (simp add: p w)
  have 5: "\<exists>s'. row_ins_head_alloc (w0\<lparr>w_race_head := Some 7\<rparr>) 60 2 cbt0 store0 =
        (Inr (Some 7), cbt0, s') \<and>
      ins_arrays s' 60 2 = Some 7 \<and> memory_footprint (page s') = 0 \<and>
      trace s' = [EvFree 100, EvAlloc 100]"
    using publish_once [where s = store0 and w = "w0\<lparr>w_race_head := Some 7\<rparr>" and a = 100
        and b = 7 and sc = ?sc and arr = 60 and i = 2 and cbt = cbt0
        and h = 0 and is_remove = False and ret = None and cbtr = cbt0 and sr = store0] c
    by (simp add: p)
  from c 1 2 3 4 5 show ?thesis by blast
qed



section \<open>Properties of the workload driver\<close>

lemma find_slot_Some: "find_slot v xs = Some i \<Longrightarrow> i < length xs \<and> xs ! i = v"
  by (induction xs arbitrary: i) (auto split: if_splits)

lemma find_slot_None: "find_slot v xs = None \<longleftrightarrow> v \<notin> set xs"
  by (induction xs) auto

lemma word_less_inc: "x \<noteq> - 1 \<Longrightarrow> x < x + 1" for x :: "64 word"
  using inc_less_eq_self_iff_eq [of x] by auto

lemma word_less_cases: "x < k \<Longrightarrow> k = x + 1 \<or> x + 1 < k" for x k :: "64 word"
  using inc_le [of x k] by auto

lemma set_update_subset: "x \<in> set (xs[i := v]) \<Longrightarrow> x = v \<or> x \<in> set xs"
  by (metis insertE set_update_subset_insert subsetD)

lemma resolve_sweep_inv:
  "rows g \<noteq> - 1 \<Longrightarrow> \<forall>x\<in>set (append_tab g). x \<noteq> 0 \<longrightarrow> x \<in> C \<Longrightarrow> - 1 \<notin> C \<Longrightarrow>
   rows g \<le> rows (resolve_sweep g) \<and> rows (resolve_sweep g) \<noteq> - 1 \<and>
   (\<forall>k. rows g < k \<and> k \<le> rows (resolve_sweep g) \<longrightarrow> k \<in> C) \<and>
   (\<forall>x\<in>set (append_tab (resolve_sweep g)). x \<noteq> 0 \<longrightarrow> x \<in> C) \<and>
   rows (resolve_sweep g) + 1 \<notin> set (append_tab (resolve_sweep g))"
proof (induction g rule: resolve_sweep.induct)
  case (1 g)
  show ?case
  proof (cases "find_slot (rows g + 1) (append_tab g)")
    case None
    then have "resolve_sweep g = g" by (subst resolve_sweep.simps) simp
    then show ?thesis using 1(2,3) None by (auto simp: find_slot_None)
  next
    case (Some i)
    let ?g1 = "g\<lparr>rows := append_tab g ! i, append_tab := (append_tab g)[i := 0],
               append_cnt := append_cnt g - 1\<rparr>"
    have step: "resolve_sweep g = resolve_sweep ?g1"
      using Some by (subst resolve_sweep.simps) simp
    from Some have i: "i < length (append_tab g)" and v: "append_tab g ! i = rows g + 1"
      using find_slot_Some by blast+
    have nz: "rows g + 1 \<noteq> 0" using 1(2) by (metis add_eq_0_iff2 add.commute minus_minus)
    have inC: "rows g + 1 \<in> C" using i v nz 1(3) by (metis nth_mem)
    have r1: "rows ?g1 = rows g + 1" using v by simp
    have a: "rows ?g1 \<noteq> - 1" using inC 1(4) r1 by metis
    have b: "\<forall>x\<in>set (append_tab ?g1). x \<noteq> 0 \<longrightarrow> x \<in> C"
      using 1(3) by (auto dest: set_update_subset)
    note IH = "1.IH"[OF Some a b 1(4), folded step]
    have lt: "rows g < rows g + 1" using 1(2) by (rule word_less_inc)
    have "rows g \<le> rows (resolve_sweep g)" using IH r1 lt by auto
    moreover have "k \<in> C" if "rows g < k" "k \<le> rows (resolve_sweep g)" for k
      using word_less_cases [OF that(1)] that(2) IH inC r1 by auto
    ultimately show ?thesis using IH by blast
  qed
qed


lemma append_pass_inv:
  assumes "rows g \<noteq> - 1" "\<forall>x\<in>set (append_tab g). x \<noteq> 0 \<longrightarrow> x \<in> C" "- 1 \<notin> C"
    "rows g + 1 \<notin> set (append_tab g)" "k \<noteq> - 1"
    "table_append_pass k g = (dn, g')"
  shows "rows g \<le> rows g' \<and> rows g' \<noteq> - 1 \<and>
     (\<forall>x. rows g < x \<and> x \<le> rows g' \<longrightarrow> dn \<and> (x = k \<or> x \<in> C)) \<and>
     (\<forall>x\<in>set (append_tab g'). x \<noteq> 0 \<longrightarrow> (dn \<and> x = k) \<or> x \<in> C) \<and>
     rows g' + 1 \<notin> set (append_tab g')"
proof (cases "k = rows g + 1")
  case True
  let ?g1 = "g\<lparr>rows := k\<rparr>"
  have g': "g' = resolve_sweep ?g1" and dn: dn
    using assms(6) True by (simp_all add: table_append_pass_def)
  have a: "rows ?g1 \<noteq> - 1" using assms(5) by simp
  have b: "\<forall>x\<in>set (append_tab ?g1). x \<noteq> 0 \<longrightarrow> x \<in> C" using assms(2) by simp
  note S = resolve_sweep_inv [OF a b assms(3), folded g']
  have lt: "rows g < k" using True assms(1) by (simp add: word_less_inc)
  have "rows g \<le> rows g'" using S lt by auto
  moreover have "dn \<and> (x = k \<or> x \<in> C)" if "rows g < x" "x \<le> rows g'" for x
    using word_less_cases [OF that(1)] that(2) S True dn by auto
  ultimately show ?thesis using S by auto
next
  case False
  show ?thesis
  proof (cases "find_slot 0 (append_tab g)")
    case None
    then have "g' = g" using assms(6) False by (simp add: table_append_pass_def)
    then show ?thesis using assms by auto
  next
    case (Some i)
    then have g': "g' = g\<lparr>append_tab := (append_tab g)[i := k],
                      append_cnt := append_cnt g + 1\<rparr>" and dn: dn
      using assms(6) False by (simp_all add: table_append_pass_def)
    show ?thesis using assms(1,2,4) False dn
      by (auto simp: g' dest!: set_update_subset)
  qed
qed

lemma append_run_inv:
  "rows g \<noteq> - 1 \<Longrightarrow> \<forall>x\<in>set (append_tab g). x \<noteq> 0 \<longrightarrow> x \<in> C \<Longrightarrow> - 1 \<notin> C \<Longrightarrow>
   rows g + 1 \<notin> set (append_tab g) \<Longrightarrow> - 1 \<notin> set ks \<Longrightarrow> append_run ks g = (cs, g') \<Longrightarrow>
   rows g \<le> rows g' \<and> rows g' \<noteq> - 1 \<and>
   (\<forall>x. rows g < x \<and> x \<le> rows g' \<longrightarrow> x \<in> C \<union> set cs) \<and>
   (\<forall>x\<in>set (append_tab g'). x \<noteq> 0 \<longrightarrow> x \<in> C \<union> set cs) \<and>
   rows g' + 1 \<notin> set (append_tab g') \<and> set cs \<subseteq> set ks"
proof (induction ks arbitrary: g C cs g')
  case Nil
  then show ?case by auto
next
  case (Cons k ks)
  obtain dn g1 where p: "table_append_pass k g = (dn, g1)" by (cases "table_append_pass k g")
  obtain cs1 g2 where r: "append_run ks g1 = (cs1, g2)" by (cases "append_run ks g1")
  from Cons.prems(6) p r have cs: "cs = (if dn then [k] else []) @ cs1" and g': "g' = g2"
    by simp_all
  have k: "k \<noteq> - 1" using Cons.prems(5) by auto
  note P = append_pass_inv [OF Cons.prems(1,2,3,4) k p]
  let ?C = "C \<union> (if dn then {k} else {})"
  have a: "\<forall>x\<in>set (append_tab g1). x \<noteq> 0 \<longrightarrow> x \<in> ?C" using P by auto
  have b: "- 1 \<notin> ?C" using Cons.prems(3) k by auto
  have c: "- 1 \<notin> set ks" using Cons.prems(5) by auto
  from P have d: "rows g1 \<noteq> - 1" and e: "rows g1 + 1 \<notin> set (append_tab g1)" by auto
  note R = Cons.IH [OF d a b e c r]
  have sub: "?C \<union> set cs1 = C \<union> set cs" by (auto simp: cs)
  have 1: "rows g \<le> rows g'" using P R g' by auto
  have 2: "x \<in> C \<union> set cs" if "rows g < x" "x \<le> rows g'" for x
  proof (cases "x \<le> rows g1")
    case True
    with P that(1) show ?thesis by (auto simp: cs)
  next
    case False
    then have "rows g1 < x" by simp
    with R that(2) g' have "x \<in> ?C \<union> set cs1" by blast
    then show ?thesis by (simp only: sub)
  qed
  have 3: "\<forall>x\<in>set (append_tab g'). x \<noteq> 0 \<longrightarrow> x \<in> C \<union> set cs"
    using R unfolding g' sub by blast
  have 4: "set cs \<subseteq> set (k # ks)" using R by (auto simp: cs)
  from 1 2 3 4 R show ?case unfolding g' by blast
qed

lemma table_append_done:
  "table_append_pass keyno g = (True, g') \<Longrightarrow> table_append others keyno g = Some g'"
  by (subst table_append.simps) simp

lemma g100_run:
  "append_run [102, 103, 101] (table_append_init 1 g100) =
     ([102, 103, 101], \<lparr>rows = 103, append_tab = replicate 10 0, append_cnt = 0\<rparr>)"
  by code_simp

lemma g100_run2:
  "rows (snd (append_run [102, 103] (table_append_init 1 g100))) = 100"
  by code_simp

text \<open>
  C8. The turns of \<open>table_append\<close> run one at a time, in any order of keys \<open>ks\<close>, from
  the table as \<open>table_append_init\<close> leaves it and a row count \<open>rows g0\<close>; no key and no
  row count is \<open>UINT64_MAX\<close>. Then \<open>g.rows\<close> never decreases, every key in
  \<open>(rows g0, g.rows]\<close> is the key of a turn that has completed (its append is recorded),
  and \<open>g.rows + 1\<close> is never left in the table: the sweep has taken up every recorded
  key that follows. A turn whose key is not \<open>g.rows + 1\<close> leaves \<open>g.rows\<close> as it is.
\<close>

theorem append_rows_invariant:
  assumes "rows g0 \<noteq> - 1" and "- 1 \<notin> set ks"
    and "append_run ks (table_append_init c_threads g0) = (cs, g)"
  shows "rows g0 \<le> rows g \<and>
         (\<forall>k. rows g0 < k \<and> k \<le> rows g \<longrightarrow> k \<in> set cs) \<and>
         set cs \<subseteq> set ks \<and>
         rows g + 1 \<notin> set (append_tab g) \<and>
         (\<forall>keyno ga. keyno \<noteq> rows ga + 1 \<longrightarrow> rows (snd (table_append_pass keyno ga)) = rows ga)"
proof -
  let ?g = "table_append_init c_threads g0"
  have r: "rows ?g = rows g0" by (simp add: table_append_init_def)
  have a: "rows ?g \<noteq> - 1" using assms(1) r by simp
  have b: "\<forall>x\<in>set (append_tab ?g). x \<noteq> 0 \<longrightarrow> x \<in> {}"
    by (simp add: table_append_init_def)
  have nz: "rows g0 + 1 \<noteq> 0" using assms(1) by (metis add_eq_0_iff2 add.commute minus_minus)
  have d: "rows ?g + 1 \<notin> set (append_tab ?g)" using nz by (auto simp: table_append_init_def)
  from append_run_inv [OF a b _ d assms(2,3)] r
  have "rows g0 \<le> rows g \<and>
         (\<forall>k. rows g0 < k \<and> k \<le> rows g \<longrightarrow> k \<in> set cs) \<and>
         set cs \<subseteq> set ks \<and> rows g + 1 \<notin> set (append_tab g)"
    by auto
  moreover have "rows (snd (table_append_pass keyno ga)) = rows ga"
    if "keyno \<noteq> rows ga + 1" for keyno ga
    using that by (simp add: table_append_pass_def split: option.splits)
  ultimately show ?thesis by blast
qed

theorem append_rows_invariant_witness:
  "rows g100 \<noteq> - 1 \<and> - 1 \<notin> set [102, 103, 101 :: 64 word] \<and>
   rows (snd (append_run [102, 103] (table_append_init 1 g100))) = 100 \<and>
   (\<exists>g. append_run [102, 103, 101] (table_append_init 1 g100) = ([102, 103, 101], g) \<and>
      rows g = 103 \<and> rows g100 \<le> rows g \<and>
      (\<forall>k. rows g100 < k \<and> k \<le> rows g \<longrightarrow> k \<in> set [102, 103, 101 :: 64 word]) \<and>
      rows g + 1 \<notin> set (append_tab g))"
proof -
  have a: "rows g100 \<noteq> - 1" by (simp add: g100_def)
  have b: "- 1 \<notin> set [102, 103, 101 :: 64 word]" by simp
  from append_rows_invariant [OF a b g100_run] a b g100_run g100_run2
  show ?thesis by simp
qed

lemma mmrand_1_100: "1 \<le> mmrand r 1 100 \<and> mmrand r 1 100 \<le> 100"
  by (simp add: mmrand_def)

lemma nextprev_steps_char:
  "nextprev_steps rnd moved got intxn dir np positioned = (calls, out) \<Longrightarrow>
   calls = replicate (length calls) dir \<and>
   np + length calls \<le> max np 100 \<and>
   (\<forall>i. np \<le> i \<and> i < np + length calls \<longrightarrow> i < mmrand (rnd i) 1 100) \<and>
   (\<forall>i. np \<le> i \<and> Suc i < np + length calls \<longrightarrow> nextprev (moved i) (got i) = Some None) \<and>
   (calls \<noteq> [] \<longrightarrow> positioned) \<and>
   (calls = [] \<longrightarrow>
      out = Continues positioned \<and> (\<not> np < mmrand (rnd np) 1 100 \<or> \<not> positioned)) \<and>
   (\<forall>n. length calls = Suc n \<longrightarrow>
      (if nextprev (moved (np + n)) (got (np + n)) = None then out = Died
       else if nextprev (moved (np + n)) (got (np + n)) = Some (Some WT_ROLLBACK) \<and> intxn
       then out = Deadlock
       else out = Continues (nextprev (moved (np + n)) (got (np + n)) = Some None) \<and>
            (\<not> Suc (np + n) < mmrand (rnd (Suc (np + n))) 1 100 \<or>
             nextprev (moved (np + n)) (got (np + n)) \<noteq> Some None)))"
proof (induction rnd moved got intxn dir np positioned arbitrary: calls out
    rule: nextprev_steps.induct)
  case (1 rnd moved got intxn dir np positioned)
  note unf = nextprev_steps.simps [of rnd moved got intxn dir np positioned]
  show ?case
  proof (cases "np < mmrand (rnd np) 1 100")
    case False
    then show ?thesis using "1.prems" unfolding unf by auto
  next
    case True
    then have np: "np < 100" using mmrand_1_100 [of "rnd np"] by simp
    show ?thesis
    proof (cases positioned)
      case False
      then show ?thesis using "1.prems" True unfolding unf by auto
    next
      case pos: True
      show ?thesis
      proof (cases "nextprev (moved np) (got np)")
        case None
        then have "calls = [dir]" "out = Died"
          using "1.prems" True pos unfolding unf by auto
        then show ?thesis using None True pos np by (auto simp: less_Suc_eq)
      next
        case (Some ret)
        show ?thesis
        proof (cases "ret = Some WT_ROLLBACK \<and> intxn")
          case rb: True
          then have "calls = [dir]" "out = Deadlock"
            using "1.prems" True pos Some unfolding unf by auto
          then show ?thesis using Some rb True pos np by (auto simp: less_Suc_eq)
        next
          case False
          obtain calls1 out1 where
            r: "nextprev_steps rnd moved got intxn dir (Suc np) (ret = None) = (calls1, out1)"
            by (cases "nextprev_steps rnd moved got intxn dir (Suc np) (ret = None)")
          have c: "calls = dir # calls1" "out = out1"
            using "1.prems" True pos Some False r unfolding unf by auto
          have n: "\<not> \<not> positioned" using pos by simp
          note IH = "1.IH" [OF True n Some False r]
          show ?thesis
          proof (cases "calls1 = []")
            case e: True
            with IH have o: "out1 = Continues (ret = None)"
              and st: "\<not> Suc np < mmrand (rnd (Suc np)) 1 100 \<or> ret \<noteq> None"
              by simp_all
            have l: "calls = [dir]" using c e by simp
            show ?thesis using l o st Some False True pos np unfolding c(2)
              by (auto simp: less_Suc_eq)
          next
            case ne: False
            with IH have p: "ret = None" by simp
            have a1: "calls = replicate (length calls) dir" using IH c by simp
            have a2: "np + length calls \<le> max np 100" using IH c np by auto
            have a3: "\<forall>i. np \<le> i \<and> i < np + length calls \<longrightarrow> i < mmrand (rnd i) 1 100"
            proof (intro allI impI)
              fix i assume i: "np \<le> i \<and> i < np + length calls"
              show "i < mmrand (rnd i) 1 100"
              proof (cases "i = np")
                case True
                then show ?thesis using \<open>np < mmrand (rnd np) 1 100\<close> by simp
              next
                case False
                then have "Suc np \<le> i \<and> i < Suc np + length calls1" using i c by auto
                then show ?thesis using IH by blast
              qed
            qed
            have a4: "\<forall>i. np \<le> i \<and> Suc i < np + length calls \<longrightarrow>
                nextprev (moved i) (got i) = Some None"
            proof (intro allI impI)
              fix i assume i: "np \<le> i \<and> Suc i < np + length calls"
              show "nextprev (moved i) (got i) = Some None"
              proof (cases "i = np")
                case True
                then show ?thesis using Some p by simp
              next
                case False
                then have "Suc np \<le> i \<and> Suc i < Suc np + length calls1" using i c by auto
                then show ?thesis using IH by blast
              qed
            qed
            have a7: "\<forall>n. length calls = Suc n \<longrightarrow>
              (if nextprev (moved (np + n)) (got (np + n)) = None then out = Died
               else if nextprev (moved (np + n)) (got (np + n)) = Some (Some WT_ROLLBACK) \<and> intxn
               then out = Deadlock
               else out = Continues (nextprev (moved (np + n)) (got (np + n)) = Some None) \<and>
                    (\<not> Suc (np + n) < mmrand (rnd (Suc (np + n))) 1 100 \<or>
                     nextprev (moved (np + n)) (got (np + n)) \<noteq> Some None))"
            proof (intro allI impI)
              fix n assume n: "length calls = Suc n"
              then have "length calls1 = n" using c by simp
              with ne obtain m where m: "n = Suc m" "length calls1 = Suc m"
                by (cases n) auto
              have eq: "Suc np + m = np + n" using m by simp
              from IH m(2) have
                "if nextprev (moved (Suc np + m)) (got (Suc np + m)) = None then out1 = Died
                 else if nextprev (moved (Suc np + m)) (got (Suc np + m)) =
                     Some (Some WT_ROLLBACK) \<and> intxn
                 then out1 = Deadlock
                 else out1 = Continues (nextprev (moved (Suc np + m)) (got (Suc np + m)) = Some None) \<and>
                    (\<not> Suc (Suc np + m) < mmrand (rnd (Suc (Suc np + m))) 1 100 \<or>
                     nextprev (moved (Suc np + m)) (got (Suc np + m)) \<noteq> Some None)"
                by blast
              then show "if nextprev (moved (np + n)) (got (np + n)) = None then out = Died
               else if nextprev (moved (np + n)) (got (np + n)) = Some (Some WT_ROLLBACK) \<and> intxn
               then out = Deadlock
               else out = Continues (nextprev (moved (np + n)) (got (np + n)) = Some None) \<and>
                    (\<not> Suc (np + n) < mmrand (rnd (Suc (np + n))) 1 100 \<or>
                     nextprev (moved (np + n)) (got (np + n)) \<noteq> Some None)"
                unfolding c(2) eq .
            qed
            have a5: "calls \<noteq> [] \<longrightarrow> positioned" using pos by simp
            have a6: "calls = [] \<longrightarrow>
                out = Continues positioned \<and> (\<not> np < mmrand (rnd np) 1 100 \<or> \<not> positioned)"
              using c by simp
            show ?thesis by (intro conjI a1 a2 a3 a4 a5 a6 a7)
          qed
        qed
      qed
    qed
  qed
qed


lemma steps_once:
  "nextprev_steps rnd_once cursor_ok cursor_ok False Next 0 True = ([Next], Continues True)"
  by (simp add: nextprev_steps.simps [of _ _ _ _ _ 0] nextprev_steps.simps [of _ _ _ _ _ "Suc 0"]
      rnd_once_def cursor_ok_def mmrand_def nextprev_def)

lemma steps_end:
  "nextprev_steps (\<lambda>np. 99) cursor_end cursor_ok False Next 0 True = ([Next], Continues False)"
  by (simp add: nextprev_steps.simps [of _ _ _ _ _ 0] nextprev_steps.simps [of _ _ _ _ _ "Suc 0"]
      cursor_end_def cursor_ok_def mmrand_def nextprev_def)

lemma steps_rollback:
  "nextprev_steps (\<lambda>np. 99) cursor_rollback cursor_ok True Next 0 True = ([Next, Next], Deadlock)"
  by (simp add: nextprev_steps.simps [of _ _ _ _ _ 0] nextprev_steps.simps [of _ _ _ _ _ "Suc 0"]
      cursor_rollback_def cursor_ok_def mmrand_def nextprev_def)

lemma read_row_call:
  "read_row type answers sn = Some (ret, sn', call) \<Longrightarrow> call = Search \<or> call = SearchNear"
  by (auto simp: read_row_def split: prod.splits if_splits option.splits wt_error.splits)

lemma ops_operation_returns:
  "(ops_operation type cfg others ans op keyno sn g = None) =
     (type \<noteq> ROW \<and> \<not> op < c_delete_pct cfg \<and> op < c_delete_pct cfg + c_insert_pct cfg \<and>
      \<not> append_cnt g \<ge> of_nat (length (append_tab g)) \<and>
      a_insert ans = None \<and> fst (a_get_key ans) = None \<and>
      table_append others (snd (a_get_key ans)) g = None)"
  by (auto simp: ops_operation_def col_insert_def split: option.splits prod.splits)

lemma ops_operation_call:
  assumes "ops_operation type cfg others ans op k sn g = Some (opc, ret, kr, positioned, sn1, g1)"
  shows "(opc = ColInsert \<or> opc = RowRemove k \<or> opc = ColRemove k \<or> opc = RowInsert k \<or>
          opc = RowUpdate k \<or> opc = ColUpdate k \<or> opc = ReadRow k Search \<or>
          opc = ReadRow k SearchNear) \<and>
         (ret \<noteq> None \<longrightarrow>
            kr = (if opc = ColInsert \<and> ret = Some None
                  then ucast (ucast (snd (a_get_key ans)) :: 32 word) else k)) \<and>
         positioned = (ret = Some None \<and> opc \<noteq> RowInsert k \<and> opc \<noteq> ColInsert)"
proof (cases "op < c_delete_pct cfg")
  case True
  with assms show ?thesis
    by (auto simp: ops_operation_def split: if_splits)
next
  case d: False
  show ?thesis
  proof (cases "op < c_delete_pct cfg + c_insert_pct cfg")
    case True
    with assms d show ?thesis
      by (auto simp: ops_operation_def col_insert_def row_insert_def
          split: if_splits option.splits prod.splits)
  next
    case i: False
    show ?thesis
    proof (cases "op < c_delete_pct cfg + c_insert_pct cfg + c_write_pct cfg")
      case True
      with assms d i show ?thesis
        by (auto simp: ops_operation_def split: if_splits)
    next
      case False
      with assms d i show ?thesis
        by (auto simp: ops_operation_def dest: read_row_call split: option.splits prod.splits)
    qed
  qed
qed

lemma append_g_room: "table_append others 101 g_room = Some (g_room\<lparr>rows := 101\<rparr>)"
  by (rule table_append_done)
    (simp add: table_append_pass_def g_room_def resolve_sweep.simps)

lemma op_update:
  "ops_operation ROW pct0 others ans_ok
     (if False then - 1 else of_nat (mmrand (d_op draws_update) 1 100))
     (of_nat (mmrand (d_keyno draws_update) 1 (unat (ucast (rows g100) :: 32 word)))) False g100 =
   Some (RowUpdate 7, Some None, 7, True, False, g100)"
  by (simp add: ops_operation_def pct0_def ans_ok_def draws_update_def g100_def mmrand_def
      row_update_def)

lemma op_update_long:
  "ops_operation ROW pct0 others ans_ok
     (if False then - 1 else of_nat (mmrand (d_op draws_long) 1 100))
     (of_nat (mmrand (d_keyno draws_long) 1 (unat (ucast (rows g100) :: 32 word)))) False g100 =
   Some (RowUpdate 7, Some None, 7, True, False, g100)"
  by (simp add: ops_operation_def pct0_def ans_ok_def draws_long_def g100_def mmrand_def
      row_update_def)

lemma op_insert:
  "ops_operation VAR pct0 others ans_ok
     (if False then - 1 else of_nat (mmrand (d_op draws_insert) 1 100))
     (of_nat (mmrand (d_keyno draws_insert) 1 (unat (ucast (rows g_room) :: 32 word)))) False
     g_room =
   Some (ColInsert, Some None, 101, False, False, g_room\<lparr>rows := 101\<rparr>)"
  by (simp add: ops_operation_def col_insert_def append_g_room pct0_def ans_ok_def
      draws_insert_def mmrand_def) (simp add: g_room_def)

lemma run_update:
  "ops_iteration ROW pct0 others ans_ok draws_update cursor_ok cursor_ok found_exact False False
     False g100 =
     Some ([RowUpdate 7, NextPrev Next, ReadRow 7 Search], Continues True, True, g100)"
proof -
  have d: "d_dir draws_update = 1" "d_np draws_update = rnd_once"
    by (simp_all add: draws_update_def)
  show ?thesis
    by (simp only: ops_iteration_def Let_def op_update)
      (simp add: d ops_steps_and_confirm_def steps_once read_row_def found_exact_def
        mmrand_def)
qed

lemma run_end:
  "ops_iteration ROW pct0 others ans_ok draws_long cursor_end cursor_ok found_exact False False
     False g100 =
     Some ([RowUpdate 7, NextPrev Next, ReadRow 7 Search], Continues True, True, g100)"
proof -
  have d: "d_dir draws_long = 1" "d_np draws_long = (\<lambda>np. 99)"
    by (simp_all add: draws_long_def)
  show ?thesis
    by (simp only: ops_iteration_def Let_def op_update_long)
      (simp add: d ops_steps_and_confirm_def steps_end read_row_def found_exact_def
        mmrand_def)
qed

lemma run_rollback:
  "ops_iteration ROW pct0 others ans_ok draws_long cursor_rollback cursor_ok found_exact True False
     False g100 =
     Some ([RowUpdate 7, NextPrev Next, NextPrev Next], Deadlock, False, g100)"
proof -
  have d: "d_dir draws_long = 1" "d_np draws_long = (\<lambda>np. 99)"
    by (simp_all add: draws_long_def)
  show ?thesis
    by (simp only: ops_iteration_def Let_def op_update_long)
      (simp add: d ops_steps_and_confirm_def steps_rollback mmrand_def)
qed

lemma run_insert:
  "ops_iteration VAR pct0 others ans_ok draws_insert cursor_ok cursor_ok found_exact False False
     False g_room =
     Some ([ColInsert, ReadRow 101 Search], Continues True, True, g_room\<lparr>rows := 101\<rparr>)"
proof -
  have d: "d_dir draws_insert = 1" "d_np draws_insert = (\<lambda>np. 99)"
    by (simp_all add: draws_insert_def)
  have s: "nextprev_steps (\<lambda>np. 99) cursor_ok cursor_ok False Next 0 False =
      ([], Continues False)"
    by (simp add: nextprev_steps.simps [of _ _ _ _ _ 0] mmrand_def)
  show ?thesis
    by (simp only: ops_iteration_def Let_def op_insert)
      (simp add: d ops_steps_and_confirm_def s read_row_def found_exact_def mmrand_def)
qed

text \<open>
  C9, as stated, fails: the number of steps is not the number that a draw between 1 and
  100 chose. With the cursor positioned throughout, a first draw of 100 and a second
  draw of 1, the worker makes one step.
\<close>

theorem steps_not_one_draw:
  "mmrand (rnd_once 0) 1 100 = 100 \<and>
   length (fst (nextprev_steps rnd_once cursor_ok cursor_ok False Next 0 True)) = 1"
  by (simp add: steps_once) (simp add: rnd_once_def mmrand_def)

text \<open>
  C9, amended. One iteration of a worker, from the draw of the key number \<open>k\<close> on, for
  an operation that returns. The worker calls the drawn operation with \<open>k\<close> (a
  column-store insert is given no key number: the cursor assigns the record number), then
  makes \<open>n\<close> \<open>next\<close>/\<open>prev\<close> steps, all in the direction drawn once before the loop,
  and then calls \<open>read_row\<close> once, with the key number \<open>kr\<close> that the variable
  \<open>keyno\<close> holds after the operation: \<open>k\<close>, or after a column-store insert that
  returned \<open>0\<close> the new record number narrowed to 32 bits. The read is left out exactly
  when the last call before it (the operation if \<open>n = 0\<close>, otherwise the last step)
  ended the process or returned \<open>WT_ROLLBACK\<close> inside a transaction. Steps are made
  exactly when the operation leaves the cursor positioned, that is when it returned \<open>0\<close>
  and is not an insert; every step but the last returned \<open>0\<close>; and \<open>n\<close> is at most
  100. A bound between 1 and 100 is drawn anew before every step: step \<open>i\<close> was made
  with \<open>i\<close> below the bound drawn for it, and where the read follows, either \<open>n\<close> is
  not below the bound drawn for \<open>n\<close> or the cursor is not positioned after the last
  call.
\<close>

theorem worker_steps_and_reread:
  assumes k: "k = of_nat (mmrand (d_keyno dr) 1 (unat (ucast (rows g) :: 32 word)))"
    and dir: "dir = (if mmrand (d_dir dr) 0 1 \<noteq> 0 then Next else Prev)"
    and op: "ops_operation type cfg others ans
               (if readonly then - 1 else of_nat (mmrand (d_op dr) 1 100)) k sn g =
             Some (opc, ret, kr, positioned, sn1, g1)"
  shows "\<exists>n rd out sn'.
     ops_iteration type cfg others ans dr moved got confirm intxn readonly sn g =
       Some (opc # replicate n (NextPrev dir) @ rd, out, sn', g1) \<and>
     (opc = ColInsert \<or> opc = RowRemove k \<or> opc = ColRemove k \<or> opc = RowInsert k \<or>
      opc = RowUpdate k \<or> opc = ColUpdate k \<or> opc = ReadRow k Search \<or>
      opc = ReadRow k SearchNear) \<and>
     (ret \<noteq> None \<longrightarrow>
        kr = (if opc = ColInsert \<and> ret = Some None
              then ucast (ucast (snd (a_get_key ans)) :: 32 word) else k)) \<and>
     positioned = (ret = Some None \<and> opc \<noteq> RowInsert k \<and> opc \<noteq> ColInsert) \<and>
     n \<le> 100 \<and>
     (0 < n) = positioned \<and>
     (\<forall>i<n. i < mmrand (d_np dr i) 1 100) \<and>
     (\<forall>i. Suc i < n \<longrightarrow> nextprev (moved i) (got i) = Some None) \<and>
     (let last = (case n of 0 \<Rightarrow> ret | Suc m \<Rightarrow> nextprev (moved m) (got m))
      in if last = None \<or> (last = Some (Some WT_ROLLBACK) \<and> intxn)
         then rd = [] \<and> out = (if last = None then Died else Deadlock)
         else (\<exists>c. rd = [ReadRow kr c]) \<and>
              (\<not> n < mmrand (d_np dr n) 1 100 \<or>
               \<not> (case n of 0 \<Rightarrow> positioned | Suc m \<Rightarrow> last = Some None)))"
proof -
  note oc = ops_operation_call [OF op]
  let ?it = "ops_iteration type cfg others ans dr moved got confirm intxn readonly sn g"
  have it: "?it =
      (case ret of
         None \<Rightarrow> Some ([opc], Died, sn1, g1)
       | Some r \<Rightarrow>
           if r = Some WT_ROLLBACK \<and> intxn then Some ([opc], Deadlock, sn1, g1)
           else
             (case ops_steps_and_confirm type (d_dir dr) (d_np dr) moved got confirm
                     intxn positioned sn1 kr of
                (calls, out, sn2) \<Rightarrow> Some (opc # calls, out, sn2, g1)))"
    using op unfolding ops_iteration_def k by (simp add: Let_def)
  have stopped: ?thesis
    if r: "ret = None \<or> (ret = Some (Some WT_ROLLBACK) \<and> intxn)"
  proof -
    have np: "\<not> positioned" using oc r by auto
    have "?it = Some (opc # replicate 0 (NextPrev dir) @ [],
        (if ret = None then Died else Deadlock), sn1, g1)"
      using r unfolding it by auto
    then show ?thesis using oc r np
      by (intro exI [of _ 0] exI [of _ "[]"] exI [of _ "if ret = None then Died else Deadlock"]
          exI [of _ sn1]) auto
  qed
  have goes: ?thesis
    if r: "\<not> (ret = None \<or> (ret = Some (Some WT_ROLLBACK) \<and> intxn))"
  proof -
    obtain steps out1 where
      st: "nextprev_steps (d_np dr) moved got intxn dir 0 positioned = (steps, out1)"
      by (cases "nextprev_steps (d_np dr) moved got intxn dir 0 positioned")
    note ch = nextprev_steps_char [OF st]
    let ?n = "length steps"
    have rep: "map NextPrev steps = replicate ?n (NextPrev dir)"
    proof -
      have "steps = replicate ?n dir" using ch by blast
      then have "map NextPrev steps = map NextPrev (replicate ?n dir)" by simp
      then show ?thesis by simp
    qed
    have n100: "?n \<le> 100" using ch by simp
    have bounds: "\<forall>i<?n. i < mmrand (d_np dr i) 1 100" using ch by simp
    have kept: "\<forall>i. Suc i < ?n \<longrightarrow> nextprev (moved i) (got i) = Some None" using ch by simp
    have pos: "0 < ?n \<longrightarrow> positioned" using ch by auto
    obtain calls out sn2 where
      sc: "ops_steps_and_confirm type (d_dir dr) (d_np dr) moved got confirm intxn positioned
             sn1 kr = (calls, out, sn2)"
      by (cases "ops_steps_and_confirm type (d_dir dr) (d_np dr) moved got confirm intxn
             positioned sn1 kr")
    have itv: "?it = Some (opc # calls, out, sn2, g1)"
      using r sc unfolding it by (auto split: option.splits)
    have sc': "(calls, out, sn2) =
       (case out1 of
          Continues p \<Rightarrow>
            (case read_row type confirm sn1 of
               None \<Rightarrow>
                 (map NextPrev steps @ [ReadRow kr (if sn1 then SearchNear else Search)],
                  Died, sn1)
             | Some (ret, sn', call) \<Rightarrow>
                 (map NextPrev steps @ [ReadRow kr call],
                  if ret = Some WT_ROLLBACK \<and> intxn then Deadlock else Continues (ret = None),
                  sn'))
        | Deadlock \<Rightarrow> (map NextPrev steps, Deadlock, sn1)
        | Died \<Rightarrow> (map NextPrev steps, Died, sn1))"
      using sc st unfolding ops_steps_and_confirm_def dir by simp
    have read: "\<exists>c. calls = map NextPrev steps @ [ReadRow kr c]" if "out1 = Continues p" for p
      using sc' that by (auto split: option.splits prod.splits)
    have noread: "calls = map NextPrev steps \<and> out = out1" if "out1 = Deadlock \<or> out1 = Died"
      using sc' that by auto
    show ?thesis
    proof (cases steps)
      case Nil
      then have o: "out1 = Continues positioned"
        and stop: "\<not> 0 < mmrand (d_np dr 0) 1 100 \<or> \<not> positioned"
        using ch by simp_all
      have np: "\<not> positioned" using stop mmrand_1_100 [of "d_np dr 0"] by auto
      from read [OF o] Nil obtain c where c: "calls = [ReadRow kr c]" by auto
      have "?it = Some (opc # replicate 0 (NextPrev dir) @ [ReadRow kr c], out, sn2, g1)"
        using itv c by simp
      then show ?thesis using oc r stop np
        by (intro exI [of _ 0] exI [of _ "[ReadRow kr c]"] exI [of _ out] exI [of _ sn2]) auto
    next
      case (Cons x xs)
      then have len: "?n = Suc (length xs)" by simp
      let ?last = "nextprev (moved (length xs)) (got (length xs))"
      from ch len have fin:
        "if ?last = None then out1 = Died
         else if ?last = Some (Some WT_ROLLBACK) \<and> intxn then out1 = Deadlock
         else out1 = Continues (?last = Some None) \<and>
              (\<not> Suc (length xs) < mmrand (d_np dr (Suc (length xs))) 1 100 \<or>
               ?last \<noteq> Some None)"
        by (simp cong: if_cong)
      show ?thesis
      proof (cases "?last = None \<or> (?last = Some (Some WT_ROLLBACK) \<and> intxn)")
        case True
        then have o: "out1 = Deadlock \<or> out1 = Died"
          and o': "out1 = (if ?last = None then Died else Deadlock)"
          using fin by (auto split: if_splits)
        from noread [OF o] have c: "calls = map NextPrev steps" "out = out1" by simp_all
        have "?it = Some (opc # replicate ?n (NextPrev dir) @ [],
            (if ?last = None then Died else Deadlock), sn1, g1)"
          using itv c rep o' sc' o by auto
        then show ?thesis using oc n100 bounds kept pos True len
          by (intro exI [of _ ?n] exI [of _ "[]"]
              exI [of _ "if ?last = None then Died else Deadlock"] exI [of _ sn1]) auto
      next
        case False
        then have o: "out1 = Continues (?last = Some None)"
          and stop: "\<not> Suc (length xs) < mmrand (d_np dr (Suc (length xs))) 1 100 \<or>
               ?last \<noteq> Some None"
          using fin by (auto split: if_splits)
        from read [OF o] obtain c where c: "calls = map NextPrev steps @ [ReadRow kr c]"
          by auto
        have "?it = Some (opc # replicate ?n (NextPrev dir) @ [ReadRow kr c], out, sn2, g1)"
          using itv c rep by simp
        then show ?thesis using oc n100 bounds kept pos False stop len
          by (intro exI [of _ ?n] exI [of _ "[ReadRow kr c]"] exI [of _ out] exI [of _ sn2])
            auto
      qed
    qed
  qed
  from stopped goes show ?thesis by blast
qed


theorem worker_steps_and_reread_witness:
  "ops_operation ROW pct0 id ans_ok
     (if False then - 1 else of_nat (mmrand (d_op draws_update) 1 100))
     (of_nat (mmrand (d_keyno draws_update) 1 (unat (ucast (rows g100) :: 32 word)))) False g100 =
     Some (RowUpdate 7, Some None, 7, True, False, g100) \<and>
   ops_iteration ROW pct0 id ans_ok draws_update cursor_ok cursor_ok found_exact False False
     False g100 =
     Some ([RowUpdate 7, NextPrev Next, ReadRow 7 Search], Continues True, True, g100) \<and>
   ops_iteration ROW pct0 id ans_ok draws_long cursor_end cursor_ok found_exact False False
     False g100 =
     Some ([RowUpdate 7, NextPrev Next, ReadRow 7 Search], Continues True, True, g100) \<and>
   ops_iteration ROW pct0 id ans_ok draws_long cursor_rollback cursor_ok found_exact True False
     False g100 =
     Some ([RowUpdate 7, NextPrev Next, NextPrev Next], Deadlock, False, g100) \<and>
   ops_operation VAR pct0 id ans_ok
     (if False then - 1 else of_nat (mmrand (d_op draws_insert) 1 100))
     (of_nat (mmrand (d_keyno draws_insert) 1 (unat (ucast (rows g_room) :: 32 word)))) False
     g_room =
     Some (ColInsert, Some None, 101, False, False, g_room\<lparr>rows := 101\<rparr>) \<and>
   ops_iteration VAR pct0 id ans_ok draws_insert cursor_ok cursor_ok found_exact False False
     False g_room =
     Some ([ColInsert, ReadRow 101 Search], Continues True, True, g_room\<lparr>rows := 101\<rparr>)"
  using worker_steps_and_reread [OF refl refl op_update, of id cursor_ok cursor_ok found_exact False]
    worker_steps_and_reread [OF refl refl op_update_long, of id cursor_end cursor_ok found_exact False]
    worker_steps_and_reread [OF refl refl op_update_long, of id cursor_rollback cursor_ok
      found_exact True]
    worker_steps_and_reread [OF refl refl op_insert, of id cursor_ok cursor_ok found_exact False]
    op_update [of id] op_insert [of id]
  by (simp only: run_update run_end run_rollback run_insert)

lemma read_row_toggle:
  "read_row type answers sn = Some (ret, sn', call) \<Longrightarrow>
   sn' = (\<not> sn) \<and> call = (if sn then SearchNear else Search)"
  by (auto simp: read_row_def split: prod.splits if_splits option.splits wt_error.splits)

lemma read_rows_alternate:
  "i < length (read_rows type cs sn) \<Longrightarrow>
   read_rows type cs sn ! i = (if sn = even i then SearchNear else Search)"
proof (induction cs arbitrary: sn i)
  case Nil
  then show ?case by simp
next
  case (Cons a cs)
  obtain search near get_value where a: "a = (search, near, get_value)" by (cases a)
  show ?case
  proof (cases "read_row type a sn")
    case None
    then show ?thesis using Cons.prems by (auto simp: a)
  next
    case (Some r)
    obtain ret sn' call where r: "r = (ret, sn', call)" by (cases r)
    from read_row_toggle [OF Some [unfolded r]] have t: "sn' = (\<not> sn)"
      "call = (if sn then SearchNear else Search)" by simp_all
    have rs: "read_rows type (a # cs) sn = call # read_rows type cs sn'"
      using Some r by simp
    show ?thesis
    proof (cases i)
      case 0
      then show ?thesis using rs t by simp
    next
      case (Suc j)
      then have "j < length (read_rows type cs sn')" using Cons.prems rs by simp
      from Cons.IH [OF this] show ?thesis using rs Suc t by auto
    qed
  qed
qed

text \<open>
  C10. A call of \<open>read_row\<close> that returns flips the static \<open>sn\<close> and makes a
  \<open>search_near\<close> if \<open>sn\<close> was set and a \<open>search\<close> if not, so that the calls made
  one after the other alternate between the two. A \<open>search_near\<close> that returns \<open>0\<close>
  with \<open>exact != 0\<close> is handled as \<open>WT_NOTFOUND\<close> (which a fixed-length store turns
  into a zero value). And \<open>read_row\<close> returns \<open>WT_NOTFOUND\<close> only if the cursor call
  it made found no exact match, \<open>get_value\<close> not returning that code itself.
\<close>

theorem read_row_alternates:
  "(read_row type answers sn = Some (ret, sn', call) \<longrightarrow>
      sn' = (\<not> sn) \<and> call = (if sn then SearchNear else Search)) \<and>
   (i < length (read_rows type cs sn) \<longrightarrow>
      read_rows type cs sn ! i = (if sn = even i then SearchNear else Search)) \<and>
   (sn \<and> exact \<noteq> 0 \<longrightarrow>
      read_row type (search, (None, exact), get_value) sn =
        Some (if type = FIX then None else Some WT_NOTFOUND, False, SearchNear)) \<and>
   (read_row type (search, (near, exact), get_value) sn = Some (Some WT_NOTFOUND, sn', call) \<and>
    get_value \<noteq> Some WT_NOTFOUND \<longrightarrow>
      (if sn then near = Some WT_NOTFOUND \<or> (near = None \<and> exact \<noteq> 0)
       else search = Some WT_NOTFOUND))"
proof -
  have 1: "read_row type answers sn = Some (ret, sn', call) \<longrightarrow>
      sn' = (\<not> sn) \<and> call = (if sn then SearchNear else Search)"
    using read_row_toggle by blast
  have 2: "i < length (read_rows type cs sn) \<longrightarrow>
      read_rows type cs sn ! i = (if sn = even i then SearchNear else Search)"
    using read_rows_alternate by blast
  have 3: "sn \<and> exact \<noteq> 0 \<longrightarrow>
      read_row type (search, (None, exact), get_value) sn =
        Some (if type = FIX then None else Some WT_NOTFOUND, False, SearchNear)"
    by (simp add: read_row_def)
  have 4: "read_row type (search, (near, exact), get_value) sn = Some (Some WT_NOTFOUND, sn', call) \<and>
    get_value \<noteq> Some WT_NOTFOUND \<longrightarrow>
      (if sn then near = Some WT_NOTFOUND \<or> (near = None \<and> exact \<noteq> 0)
       else search = Some WT_NOTFOUND)"
    by (auto simp: read_row_def split: prod.splits if_splits option.splits wt_error.splits)
  from 1 2 3 4 show ?thesis by (intro conjI)
qed

theorem read_row_alternates_witness:
  "read_row ROW found_near False = Some (None, True, Search) \<and>
   read_row ROW found_near True = Some (Some WT_NOTFOUND, False, SearchNear) \<and>
   read_row FIX found_near True = Some (None, False, SearchNear) \<and>
   read_rows ROW [found_exact, found_near, found_exact] False ! 1 = SearchNear \<and>
   read_rows ROW [found_exact, found_near, found_exact] False = [Search, SearchNear, Search]"
proof -
  have a: "read_row ROW found_near False = Some (None, True, Search)"
    by (simp add: read_row_def found_near_def)
  have b: "read_rows ROW [found_exact, found_near, found_exact] False = [Search, SearchNear, Search]"
    by (simp add: read_row_def found_near_def found_exact_def)
  show ?thesis
    using read_row_alternates [where type = ROW and answers = found_near and sn = False
        and ret = None and sn' = True and call = Search and i = 0 and cs = "[]"
        and exact = 1 and search = None and get_value = None and near = None]
      read_row_alternates [where type = ROW and answers = found_near and sn = True
        and ret = None and sn' = False and call = SearchNear and i = 0 and cs = "[]"
        and exact = 1 and search = None and get_value = None and near = None]
      read_row_alternates [where type = FIX and answers = found_near and sn = True
        and ret = None and sn' = False and call = SearchNear and i = 1
        and cs = "[found_exact, found_near, found_exact]"
        and exact = 1 and search = None and get_value = None and near = None]
      read_row_alternates [where type = ROW and answers = found_near and sn = False
        and ret = None and sn' = False and call = SearchNear and i = 1
        and cs = "[found_exact, found_near, found_exact]"
        and exact = 1 and search = None and get_value = None and near = None]
      a b
    by (simp add: found_near_def)
qed


end
